theory Spec2Isabelle
  imports Main "HOL-Library.AList"
begin

section \<open>JavaScript values the program computes with\<close>

text \<open>
  The program's numbers come from \<^verbatim>\<open>Date.now()\<close> and \<^verbatim>\<open>parseInt\<close>: integers, and
  \<^verbatim>\<open>NaN\<close> when \<^verbatim>\<open>parseInt\<close> finds no digit. Fractions, infinities and the rounding of
  integers beyond \<open>2 ^ 53\<close> are not modelled. Strings are byte lists; a character outside
  ASCII is written as its UTF-8 bytes.
\<close>

datatype jsnum = NaN | Num int

text \<open>\<^verbatim>\<open>Math.max(a, b)\<close>: \<^verbatim>\<open>NaN\<close> as soon as one argument is \<^verbatim>\<open>NaN\<close>.\<close>

fun Math_max :: "jsnum \<Rightarrow> jsnum \<Rightarrow> jsnum" where
  "Math_max (Num a) (Num b) = Num (max a b)"
| "Math_max _ _ = NaN"

definition isWhiteSpace :: "char \<Rightarrow> bool" where
  "isWhiteSpace c = (c \<in> set [CHR 0x09, CHR 0x0A, CHR 0x0B, CHR 0x0C, CHR 0x0D, CHR 0x20])"

definition isDigit :: "char \<Rightarrow> bool" where
  "isDigit c = (48 \<le> (of_char c :: nat) \<and> (of_char c :: nat) \<le> 57)"

definition digitValue :: "char \<Rightarrow> int" where
  "digitValue c = int (of_char c) - 48"

definition stripSign :: "string \<Rightarrow> int \<times> string" where
  "stripSign s = (case s of
       [] \<Rightarrow> (1, [])
     | c # r \<Rightarrow> (if c = CHR ''-'' then (- 1, r) else if c = CHR ''+'' then (1, r) else (1, s)))"

text \<open>
  \<^verbatim>\<open>parseInt(s, 10)\<close>: leading white space is skipped, one sign is read, then the longest
  run of decimal digits; with no digit the result is \<^verbatim>\<open>NaN\<close>. Whatever follows the digits
  is ignored.
\<close>

definition parseInt10 :: "string \<Rightarrow> jsnum" where
  "parseInt10 s =
     (let (sign, rest) = stripSign (dropWhile isWhiteSpace s);
          Z = takeWhile isDigit rest
      in if Z = [] then NaN
         else Num (sign * foldl (\<lambda>acc c. 10 * acc + digitValue c) 0 Z))"

text \<open>The decimal digits of a number, as a template literal prints \<^verbatim>\<open>Date.now()\<close>.\<close>

fun digits10 :: "nat \<Rightarrow> string" where
  "digits10 n =
     (if n < 10 then [char_of (48 + n)]
      else digits10 (n div 10) @ [char_of (48 + n mod 10)])"

declare digits10.simps [simp del]

section \<open>The data model (types.ts)\<close>

datatype SessionState =
    CONFIGURING_QUIZ
  | GENERATING_QUIZ
  | TAKING_QUIZ
  | SUBMITTING_QUIZ
  | REVIEWING_QUIZ
  | ERROR

datatype QuizType = SINGLE | MULTIPLE | MIXED

record Option =
  o_text :: string
  o_isCorrect :: bool

datatype QuestionType = Single | Multiple

record Question =
  q_id :: string
  questionText :: string
  options :: "Option list"
  q_type :: QuestionType

text \<open>
  \<^verbatim>\<open>UserAnswers\<close> is an object used as a dictionary: an association list in insertion
  order, read with \<^const>\<open>map_of\<close> and written with \<^const>\<open>AList.update\<close>.
\<close>

type_synonym UserAnswers = "(string \<times> string list) list"

record QuizResult =
  r_questionText :: string
  userAnswer :: "string list"
  correctAnswer :: "string list"
  r_isCorrect :: bool
  feedbackFR :: string
  feedbackAR :: string

record CorrectionResponse =
  results :: "QuizResult list"
  c_weakTopics :: string

text \<open>The field \<^verbatim>\<open>error?: string | null\<close> has three kinds of value.\<close>

datatype error_field = ErrUndefined | ErrNull | ErrMsg string

text \<open>
  \<^verbatim>\<open>correction\<close> is \<open>None\<close> for \<^verbatim>\<open>null\<close>, \<^verbatim>\<open>weakTopics\<close> is \<open>None\<close> for
  \<^verbatim>\<open>undefined\<close>.
\<close>

record DocumentSession =
  s_id :: string
  fileName :: string
  content :: string
  quizType :: QuizType
  numQuestions :: jsnum
  questions :: "Question list"
  userAnswers :: UserAnswers
  correction :: "CorrectionResponse option"
  weakTopics :: "string option"
  lastAccessed :: nat
  state :: SessionState
  error :: error_field

section \<open>The component state (App.tsx)\<close>

text \<open>
  The three \<^verbatim>\<open>useState\<close> cells. The store is a parameter of the record: the handlers
  work on a store of sessions, the persistence effects on whatever \<^verbatim>\<open>JSON.parse\<close>
  returned.
\<close>

record 's AppState =
  sessions :: 's
  activeSessionId :: "string option"
  isLoaded :: bool

type_synonym Sessions = "(string \<times> DocumentSession) list"

type_synonym App = "Sessions AppState"

definition initialApp :: "'s \<Rightarrow> 's AppState" where
  "initialApp empty_store = \<lparr>sessions = empty_store, activeSessionId = None, isLoaded = False\<rparr>"

text \<open>
  \<^verbatim>\<open>activeSessionId ? sessions[activeSessionId] : null\<close>. The empty string is falsy.
\<close>

definition activeSession :: "App \<Rightarrow> DocumentSession option" where
  "activeSession st =
     (case activeSessionId st of
        None \<Rightarrow> None
      | Some aid \<Rightarrow> if aid = [] then None else map_of (sessions st) aid)"

text \<open>
  \<^verbatim>\<open>updateActiveSession\<close> closes over the \<^verbatim>\<open>activeSessionId\<close> of the render that built
  it (the first argument) and updates the store it finds when the update runs. The
  partial object \<^verbatim>\<open>updates\<close> is the function that writes its fields. When the store has
  no entry under the identifier, the spread builds an object that holds the written
  fields only, which is no \<^verbatim>\<open>DocumentSession\<close>: the result is \<open>None\<close> here, and
  \<open>page_fire\<close> below keeps what is written.
\<close>

definition updateActiveSession ::
  "string option \<Rightarrow> (DocumentSession \<Rightarrow> DocumentSession) \<Rightarrow> nat \<Rightarrow> App \<Rightarrow> App option" where
  "updateActiveSession closedId updates now st =
     (case closedId of
        None \<Rightarrow> Some st
      | Some aid \<Rightarrow>
          if aid = [] then Some st
          else (case map_of (sessions st) aid of
                  None \<Rightarrow> None
                | Some s \<Rightarrow>
                    Some (st\<lparr>sessions :=
                      AList.update aid ((updates s)\<lparr>lastAccessed := now\<rparr>) (sessions st)\<rparr>)))"

text \<open>
  \<^verbatim>\<open>handleFileChange\<close>: the chosen file is absent, unreadable (\<^verbatim>\<open>file.text()\<close> rejects,
  an alert is shown) or read. The two calls of \<^verbatim>\<open>Date.now()\<close> are two arguments.
\<close>

datatype file_input = NoFile | Unreadable string | Readable string string

fun handleFileChange :: "file_input \<Rightarrow> nat \<Rightarrow> nat \<Rightarrow> App \<Rightarrow> App" where
  "handleFileChange (Readable name txt) idNow accessNow st =
     (let newId = ''session-'' @ digits10 idNow;
          newSession = \<lparr>s_id = newId, fileName = name, content = txt, quizType = MIXED,
            numQuestions = Num 5, questions = [], userAnswers = [], correction = None,
            weakTopics = None, lastAccessed = accessNow, state = CONFIGURING_QUIZ,
            error = ErrUndefined\<rparr>
      in st\<lparr>sessions := AList.update newId newSession (sessions st),
            activeSessionId := Some newId\<rparr>)"
| "handleFileChange _ idNow accessNow st = st"

text \<open>\<^verbatim>\<open>handleDeleteSession\<close>; \<open>confirmed\<close> is the answer of \<^verbatim>\<open>window.confirm\<close>.\<close>

definition handleDeleteSession :: "string \<Rightarrow> bool \<Rightarrow> App \<Rightarrow> App" where
  "handleDeleteSession sessionId confirmed st =
     (if confirmed
      then st\<lparr>sessions := AList.delete sessionId (sessions st),
              activeSessionId :=
                (if activeSessionId st = Some sessionId then None else activeSessionId st)\<rparr>
      else st)"

subsection \<open>The two collaborators (services/geminiService.ts)\<close>

text \<open>What a \<^verbatim>\<open>catch\<close> clause receives: an \<^verbatim>\<open>Error\<close> with its message, or another value.\<close>

datatype thrown = ErrorObject string | NonErrorValue

definition msg_no_questions :: string where
  "msg_no_questions = ''L'' @ [CHR 0x27] @ ''API n'' @ [CHR 0x27] @ ''a retourn''
     @ [CHR 0xC3, CHR 0xA9] @ '' aucune question. Veuillez v'' @ [CHR 0xC3, CHR 0xA9]
     @ ''rifier le contenu fourni.''"

definition msg_unknown :: string where
  "msg_unknown = ''Une erreur inconnue est survenue.''"

definition msg_generate_failed :: string where
  "msg_generate_failed = ''Impossible de g'' @ [CHR 0xC3, CHR 0xA9] @ ''n''
     @ [CHR 0xC3, CHR 0xA9] @ ''rer le quiz. Veuillez v'' @ [CHR 0xC3, CHR 0xA9]
     @ ''rifier le contenu fourni et r'' @ [CHR 0xC3, CHR 0xA9] @ ''essayer.''"

definition msg_correct_failed :: string where
  "msg_correct_failed = ''Impossible de corriger le quiz. Une erreur s''
     @ [CHR 0x27] @ ''est produite.''"

text \<open>
  What the model's reply amounts to inside the \<^verbatim>\<open>try\<close> block of \<^verbatim>\<open>generateQuiz\<close>:
  anything that throws there (the request, \<^verbatim>\<open>JSON.parse\<close>, a reply that is no array), or
  the array of questions. A question whose \<^verbatim>\<open>id\<close> is falsy is one whose \<open>q_id\<close> is
  empty. The prompt only feeds the request, so the document, the quiz type and the
  count are no arguments here.
\<close>

datatype api_reply = ApiThrows | ApiQuestions "Question list"

definition fillId :: "(nat \<Rightarrow> nat) \<Rightarrow> nat \<times> Question \<Rightarrow> Question" where
  "fillId clock iq =
     (case iq of (index, q) \<Rightarrow>
        if q_id q = []
        then q\<lparr>q_id := ''q-'' @ digits10 (clock index) @ ''-'' @ digits10 index\<rparr>
        else q)"

text \<open>\<open>clock index\<close> is what \<^verbatim>\<open>Date.now()\<close> returns while item \<open>index\<close> is mapped.\<close>

definition generateQuiz :: "api_reply \<Rightarrow> (nat \<Rightarrow> nat) \<Rightarrow> thrown + Question list" where
  "generateQuiz reply clock =
     (case reply of
        ApiThrows \<Rightarrow> Inl (ErrorObject msg_generate_failed)
      | ApiQuestions qs \<Rightarrow> Inr (map (fillId clock) (enumerate 0 qs)))"

text \<open>
  \<^verbatim>\<open>correctAndReviewQuiz\<close> returns the parsed reply as a \<^verbatim>\<open>CorrectionResponse\<close> without
  looking at it; a reply of another shape is not modelled.
\<close>

datatype grader_reply = GraderThrows | GraderResult CorrectionResponse

definition correctAndReviewQuiz :: "grader_reply \<Rightarrow> thrown + CorrectionResponse" where
  "correctAndReviewQuiz reply =
     (case reply of
        GraderThrows \<Rightarrow> Inl (ErrorObject msg_correct_failed)
      | GraderResult r \<Rightarrow> Inr r)"

subsection \<open>The handlers\<close>

text \<open>\<^verbatim>\<open>err instanceof Error ? err.message : 'Une erreur inconnue est survenue.'\<close>\<close>

definition errorMessage :: "thrown \<Rightarrow> string" where
  "errorMessage err = (case err of ErrorObject m \<Rightarrow> m | NonErrorValue \<Rightarrow> msg_unknown)"

text \<open>The \<^verbatim>\<open>catch\<close> block of \<^verbatim>\<open>handleGenerateQuiz\<close> and of \<^verbatim>\<open>handleSubmitQuiz\<close>.\<close>

definition failSession :: "string option \<Rightarrow> thrown \<Rightarrow> nat \<Rightarrow> App \<Rightarrow> App option" where
  "failSession closedId err now st =
     updateActiveSession closedId
       (\<lambda>s. s\<lparr>error := ErrMsg (errorMessage err), state := ERROR\<rparr>) now st"

text \<open>
  \<^verbatim>\<open>handleGenerateQuiz\<close> runs in two parts, before and after the \<^verbatim>\<open>await\<close>. The second
  part uses the \<^verbatim>\<open>updateActiveSession\<close> of the render in which the first part ran, so it
  takes that render's \<^verbatim>\<open>activeSessionId\<close>, and the collaborator's outcome.
\<close>

definition handleGenerateQuiz_begin :: "nat \<Rightarrow> App \<Rightarrow> App option" where
  "handleGenerateQuiz_begin now st =
     (case activeSession st of
        None \<Rightarrow> Some st
      | Some a \<Rightarrow>
          updateActiveSession (activeSessionId st)
            (\<lambda>s. s\<lparr>state := GENERATING_QUIZ, error := ErrNull\<rparr>) now st)"

definition handleGenerateQuiz_resume ::
  "string option \<Rightarrow> thrown + Question list \<Rightarrow> nat \<Rightarrow> App \<Rightarrow> App option" where
  "handleGenerateQuiz_resume closedId outcome now st =
     (case outcome of
        Inl err \<Rightarrow> failSession closedId err now st
      | Inr generatedQuestions \<Rightarrow>
          if length generatedQuestions = 0
          then failSession closedId (ErrorObject msg_no_questions) now st
          else updateActiveSession closedId
                 (\<lambda>s. s\<lparr>questions := generatedQuestions, userAnswers := [],
                         correction := None, state := TAKING_QUIZ\<rparr>) now st)"

definition toggleAnswers :: "string list \<Rightarrow> string \<Rightarrow> bool \<Rightarrow> string list" where
  "toggleAnswers currentAnswers optionText isMultiple =
     (if isMultiple
      then (if optionText \<in> set currentAnswers
            then filter (\<lambda>a. a \<noteq> optionText) currentAnswers
            else currentAnswers @ [optionText])
      else [optionText])"

text \<open>\<^verbatim>\<open>activeSession.userAnswers[questionId] || []\<close>\<close>

definition answersOf :: "UserAnswers \<Rightarrow> string \<Rightarrow> string list" where
  "answersOf ua questionId = (case map_of ua questionId of None \<Rightarrow> [] | Some xs \<Rightarrow> xs)"

definition handleAnswerChange :: "string \<Rightarrow> string \<Rightarrow> bool \<Rightarrow> nat \<Rightarrow> App \<Rightarrow> App option" where
  "handleAnswerChange questionId optionText isMultiple now st =
     (case activeSession st of
        None \<Rightarrow> Some st
      | Some a \<Rightarrow>
          (let currentAnswers = answersOf (userAnswers a) questionId;
               newAnswers = toggleAnswers currentAnswers optionText isMultiple
           in updateActiveSession (activeSessionId st)
                (\<lambda>s. s\<lparr>userAnswers := AList.update questionId newAnswers (userAnswers a)\<rparr>)
                now st))"

text \<open>
  \<^verbatim>\<open>userAnswers\<close> is a plain object, so \<^verbatim>\<open>userAnswers[k]\<close> is the entry written under
  \<open>k\<close> and, where there is none, what \<open>k\<close> names in \<^verbatim>\<open>Object.prototype\<close>: a function,
  whose \<^verbatim>\<open>length\<close> is its number of parameters, or for \<^verbatim>\<open>__proto__\<close> the prototype
  itself, which has no \<^verbatim>\<open>length\<close>. Any other name reads as \<^verbatim>\<open>undefined\<close>.
\<close>

datatype member = Entry "string list" | InheritedFunction nat | InheritedPrototype | NoMember

definition objectPrototype :: "string \<Rightarrow> member" where
  "objectPrototype k =
     (if k \<in> set [''constructor'', ''hasOwnProperty'', ''isPrototypeOf'',
                   ''propertyIsEnumerable'', ''__lookupGetter__'', ''__lookupSetter__'']
      then InheritedFunction 1
      else if k \<in> set [''__defineGetter__'', ''__defineSetter__''] then InheritedFunction 2
      else if k \<in> set [''toString'', ''toLocaleString'', ''valueOf''] then InheritedFunction 0
      else if k = ''__proto__'' then InheritedPrototype
      else NoMember)"

definition getMember :: "UserAnswers \<Rightarrow> string \<Rightarrow> member" where
  "getMember ua k = (case map_of ua k of None \<Rightarrow> objectPrototype k | Some xs \<Rightarrow> Entry xs)"

text \<open>
  \<^verbatim>\<open>v && v.length > 0\<close>: an array and a function are truthy and have a length; the
  prototype is truthy and its \<^verbatim>\<open>length\<close> is \<^verbatim>\<open>undefined\<close>, which is not above 0.
\<close>

definition hasLength :: "member \<Rightarrow> bool" where
  "hasLength v =
     (case v of
        Entry xs \<Rightarrow> 0 < length xs
      | InheritedFunction n \<Rightarrow> 0 < n
      | InheritedPrototype \<Rightarrow> False
      | NoMember \<Rightarrow> False)"

definition isQuizAnswered :: "App \<Rightarrow> bool" where
  "isQuizAnswered st =
     (case activeSession st of
        None \<Rightarrow> False
      | Some a \<Rightarrow>
          if length (questions a) = 0 then False
          else list_all (\<lambda>q. hasLength (getMember (userAnswers a) (q_id q))) (questions a))"

definition handleSubmitQuiz_begin :: "nat \<Rightarrow> App \<Rightarrow> App option" where
  "handleSubmitQuiz_begin now st =
     (if \<not> isQuizAnswered st \<or> activeSession st = None then Some st
      else updateActiveSession (activeSessionId st)
             (\<lambda>s. s\<lparr>state := SUBMITTING_QUIZ, error := ErrNull\<rparr>) now st)"

definition handleSubmitQuiz_resume ::
  "string option \<Rightarrow> thrown + CorrectionResponse \<Rightarrow> nat \<Rightarrow> App \<Rightarrow> App option" where
  "handleSubmitQuiz_resume closedId outcome now st =
     (case outcome of
        Inl err \<Rightarrow> failSession closedId err now st
      | Inr result \<Rightarrow>
          updateActiveSession closedId
            (\<lambda>s. s\<lparr>correction := Some result, weakTopics := Some (c_weakTopics result),
                    state := REVIEWING_QUIZ\<rparr>) now st)"

definition resetSession :: "bool \<Rightarrow> bool \<Rightarrow> nat \<Rightarrow> App \<Rightarrow> App option" where
  "resetSession isNewFile confirmed now st =
     (case activeSessionId st of
        None \<Rightarrow> Some st
      | Some aid \<Rightarrow>
          if aid = [] then Some st
          else if isNewFile
          then Some ((handleDeleteSession aid confirmed st)\<lparr>activeSessionId := None\<rparr>)
          else updateActiveSession (activeSessionId st)
                 (\<lambda>s. s\<lparr>state := CONFIGURING_QUIZ, questions := [], userAnswers := [],
                         correction := None, error := ErrNull, weakTopics := None\<rparr>) now st)"

subsection \<open>The handlers written inside the render functions\<close>

text \<open>The \<^verbatim>\<open>onChange\<close> of the question-count field; \<open>v\<close> is \<^verbatim>\<open>e.target.value\<close>.\<close>

definition onNumQuestionsChange :: "string \<Rightarrow> nat \<Rightarrow> App \<Rightarrow> App option" where
  "onNumQuestionsChange v now st =
     updateActiveSession (activeSessionId st)
       (\<lambda>s. s\<lparr>numQuestions := Math_max (Num 1) (parseInt10 v)\<rparr>) now st"

definition onQuizTypeClick :: "QuizType \<Rightarrow> nat \<Rightarrow> App \<Rightarrow> App option" where
  "onQuizTypeClick t now st =
     updateActiveSession (activeSessionId st) (\<lambda>s. s\<lparr>quizType := t\<rparr>) now st"

text \<open>The button of the review that starts a quiz on the weak topics.\<close>

definition onImproveClick :: "nat \<Rightarrow> App \<Rightarrow> App option" where
  "onImproveClick now st =
     updateActiveSession (activeSessionId st)
       (\<lambda>s. s\<lparr>state := CONFIGURING_QUIZ, questions := [], userAnswers := [],
               correction := None, error := ErrNull\<rparr>) now st"

text \<open>The button of the error view.\<close>

definition onRecommencerClick :: "nat \<Rightarrow> App \<Rightarrow> App option" where
  "onRecommencerClick now st =
     updateActiveSession (activeSessionId st)
       (\<lambda>s. s\<lparr>state := CONFIGURING_QUIZ, error := ErrNull\<rparr>) now st"

subsection \<open>What the rendered page offers\<close>

text \<open>
  \<^verbatim>\<open>renderActiveSession\<close> and the \<^verbatim>\<open>main\<close> element of the page choose one view; a
  handler can only be called from a control of the view on the page.
\<close>

datatype view =
    LoaderView
  | DocumentSelection
  | QuizConfig
  | Quiz
  | Review
  | ErrorView
  | NothingRendered

definition renderActiveSession :: "App \<Rightarrow> view" where
  "renderActiveSession st =
     (case activeSession st of
        None \<Rightarrow> NothingRendered
      | Some a \<Rightarrow>
          (case state a of
             CONFIGURING_QUIZ \<Rightarrow> QuizConfig
           | GENERATING_QUIZ \<Rightarrow> LoaderView
           | TAKING_QUIZ \<Rightarrow> Quiz
           | SUBMITTING_QUIZ \<Rightarrow> LoaderView
           | REVIEWING_QUIZ \<Rightarrow> (if correction a = None then NothingRendered else Review)
           | ERROR \<Rightarrow> ErrorView))"

definition mainView :: "App \<Rightarrow> view" where
  "mainView st =
     (if \<not> isLoaded st then LoaderView
      else (case activeSessionId st of
              None \<Rightarrow> DocumentSelection
            | Some aid \<Rightarrow> if aid = [] then DocumentSelection else renderActiveSession st))"

text \<open>
  The events of the page: the user's actions on the controls, and the settling of the
  two promises. Each carries what the handler reads from outside: the typed text, the
  answer of \<^verbatim>\<open>window.confirm\<close>, the values of \<^verbatim>\<open>Date.now()\<close>, the collaborator's reply.
  A settling event names the session for which the call was made; a click in the list
  of documents names the entry of the store whose card is clicked, and the handler
  gets the \<^verbatim>\<open>id\<close> of that session.
\<close>

datatype event =
    FileChosen file_input nat nat
  | SessionClicked string
  | BackClicked
  | DeleteClicked string bool
  | NumQuestionsTyped string nat
  | QuizTypeClicked QuizType nat
  | ChangeFileClicked bool nat
  | GenerateClicked nat
  | GenerateSettled string api_reply "nat \<Rightarrow> nat" nat
  | OptionClicked nat nat nat
  | SubmitClicked nat
  | SubmitSettled string grader_reply nat
  | NewQuizClicked bool nat
  | ImproveClicked nat
  | RecommencerClicked nat

definition hasContent :: "App \<Rightarrow> bool" where
  "hasContent st = (case activeSession st of None \<Rightarrow> False | Some a \<Rightarrow> content a \<noteq> [])"

definition hasWeakTopics :: "App \<Rightarrow> bool" where
  "hasWeakTopics st =
     (case activeSession st of
        None \<Rightarrow> False
      | Some a \<Rightarrow> (case correction a of None \<Rightarrow> False | Some c \<Rightarrow> c_weakTopics c \<noteq> []))"

definition awaiting :: "SessionState \<Rightarrow> string \<Rightarrow> App \<Rightarrow> bool" where
  "awaiting phase aid st =
     (aid \<noteq> [] \<and> (case map_of (sessions st) aid of None \<Rightarrow> False | Some s \<Rightarrow> state s = phase))"

text \<open>
  \<open>fire e st\<close> is the state after event \<open>e\<close>, or \<open>None\<close> when the page in state \<open>st\<close>
  has no control for \<open>e\<close>. A file can finish loading in any view. A call settles for a
  session that still shows its loader: while it does, the page offers no control on
  that session, and session identifiers are not used twice; a call that settles after
  its session was deleted is an event of \<open>page_fire\<close> below.
\<close>

fun fire :: "event \<Rightarrow> App \<Rightarrow> App option" where
  "fire (FileChosen f idNow accessNow) st =
     (if isLoaded st then Some (handleFileChange f idNow accessNow st) else None)"
| "fire (SessionClicked key) st =
     (case map_of (sessions st) key of
        None \<Rightarrow> None
      | Some session \<Rightarrow>
          if mainView st = DocumentSelection
          then Some (st\<lparr>activeSessionId := Some (s_id session)\<rparr>) else None)"
| "fire BackClicked st =
     (case activeSessionId st of
        None \<Rightarrow> None
      | Some aid \<Rightarrow> if aid = [] then None else Some (st\<lparr>activeSessionId := None\<rparr>))"
| "fire (DeleteClicked key confirmed) st =
     (case map_of (sessions st) key of
        None \<Rightarrow> None
      | Some session \<Rightarrow>
          if mainView st = DocumentSelection
          then Some (handleDeleteSession (s_id session) confirmed st) else None)"
| "fire (NumQuestionsTyped v now) st =
     (if mainView st = QuizConfig then onNumQuestionsChange v now st else None)"
| "fire (QuizTypeClicked t now) st =
     (if mainView st = QuizConfig then onQuizTypeClick t now st else None)"
| "fire (ChangeFileClicked confirmed now) st =
     (if mainView st = QuizConfig then resetSession True confirmed now st else None)"
| "fire (GenerateClicked now) st =
     (if mainView st = QuizConfig \<and> hasContent st then handleGenerateQuiz_begin now st else None)"
| "fire (GenerateSettled aid reply clock now) st =
     (if awaiting GENERATING_QUIZ aid st
      then handleGenerateQuiz_resume (Some aid) (generateQuiz reply clock) now st else None)"
| "fire (OptionClicked qIndex oIndex now) st =
     (case activeSession st of
        None \<Rightarrow> None
      | Some a \<Rightarrow>
          if mainView st = Quiz \<and> qIndex < length (questions a)
             \<and> oIndex < length (options (questions a ! qIndex))
          then (let q = questions a ! qIndex; option = options q ! oIndex
                in handleAnswerChange (q_id q) (o_text option) (q_type q = Multiple) now st)
          else None)"
| "fire (SubmitClicked now) st =
     (if mainView st = Quiz \<and> isQuizAnswered st then handleSubmitQuiz_begin now st else None)"
| "fire (SubmitSettled aid reply now) st =
     (if awaiting SUBMITTING_QUIZ aid st
      then handleSubmitQuiz_resume (Some aid) (correctAndReviewQuiz reply) now st else None)"
| "fire (NewQuizClicked confirmed now) st =
     (if mainView st = Review then resetSession True confirmed now st else None)"
| "fire (ImproveClicked now) st =
     (if mainView st = Review \<and> hasWeakTopics st then onImproveClick now st else None)"
| "fire (RecommencerClicked now) st =
     (if mainView st = ErrorView then onRecommencerClick now st else None)"

fun run :: "event list \<Rightarrow> App \<Rightarrow> App option" where
  "run [] st = Some st"
| "run (e # es) st = (case fire e st of None \<Rightarrow> None | Some st' \<Rightarrow> run es st')"

text \<open>The page once the load effect has run and found nothing saved.\<close>

definition startApp :: App where
  "startApp = \<lparr>sessions = [], activeSessionId = None, isLoaded = True\<rparr>"

fun isAcknowledgement :: "event \<Rightarrow> bool" where
  "isAcknowledgement (RecommencerClicked now) = True"
| "isAcknowledgement _ = False"

fun isGenerationSuccess :: "event \<Rightarrow> bool" where
  "isGenerationSuccess (GenerateSettled aid reply clock now) =
     (case generateQuiz reply clock of Inl err \<Rightarrow> False | Inr qs \<Rightarrow> qs \<noteq> [])"
| "isGenerationSuccess _ = False"

fun isGradingSuccess :: "event \<Rightarrow> bool" where
  "isGradingSuccess (SubmitSettled aid reply now) =
     (case correctAndReviewQuiz reply of Inl err \<Rightarrow> False | Inr result \<Rightarrow> True)"
| "isGradingSuccess _ = False"

subsection \<open>Calls that settle after their session was deleted\<close>

text \<open>
  The header's button leads from a loader back to the list of documents, where the
  session can be deleted while its call is in flight. When the call settles,
  \<^verbatim>\<open>updateActiveSession\<close> finds no entry under the identifier it closed over, and
  \<^verbatim>\<open>{...prev[id], ...updates, lastAccessed: Date.now()}\<close> stores under that identifier
  an object with the written fields only: it has no \<^verbatim>\<open>id\<close>, no \<^verbatim>\<open>fileName\<close> and no
  \<^verbatim>\<open>content\<close>. The three updates of the two handlers write three such objects: the
  questions with empty answers, a null correction and state \<open>TAKING_QUIZ\<close>; an error
  message with state \<open>ERROR\<close>; a correction, with its weak topics, and state
  \<open>REVIEWING_QUIZ\<close>. The last argument is \<^verbatim>\<open>lastAccessed\<close>.
\<close>

datatype leftover =
    LeftoverQuiz "Question list" nat
  | LeftoverError string nat
  | LeftoverReview CorrectionResponse nat

text \<open>The \<^verbatim>\<open>state\<close> of a leftover, and its \<^verbatim>\<open>correction\<close> where it holds one.\<close>

definition leftoverState :: "leftover \<Rightarrow> SessionState" where
  "leftoverState l =
     (case l of
        LeftoverQuiz qs now \<Rightarrow> TAKING_QUIZ
      | LeftoverError m now \<Rightarrow> ERROR
      | LeftoverReview r now \<Rightarrow> REVIEWING_QUIZ)"

definition leftoverCorrection :: "leftover \<Rightarrow> CorrectionResponse option" where
  "leftoverCorrection l =
     (case l of
        LeftoverQuiz qs now \<Rightarrow> None
      | LeftoverError m now \<Rightarrow> None
      | LeftoverReview r now \<Rightarrow> Some r)"

text \<open>
  What the second part of \<^verbatim>\<open>handleGenerateQuiz\<close> and of \<^verbatim>\<open>handleSubmitQuiz\<close> writes
  where the store has no entry; the branches are those of
  \<^const>\<open>handleGenerateQuiz_resume\<close> and \<^const>\<open>handleSubmitQuiz_resume\<close>.
\<close>

definition generateLeftover :: "thrown + Question list \<Rightarrow> nat \<Rightarrow> leftover" where
  "generateLeftover outcome now =
     (case outcome of
        Inl err \<Rightarrow> LeftoverError (errorMessage err) now
      | Inr generatedQuestions \<Rightarrow>
          if length generatedQuestions = 0
          then LeftoverError (errorMessage (ErrorObject msg_no_questions)) now
          else LeftoverQuiz generatedQuestions now)"

definition submitLeftover :: "thrown + CorrectionResponse \<Rightarrow> nat \<Rightarrow> leftover" where
  "submitLeftover outcome now =
     (case outcome of
        Inl err \<Rightarrow> LeftoverError (errorMessage err) now
      | Inr result \<Rightarrow> LeftoverReview result now)"

text \<open>
  The page: the component state; the leftovers of the store, kept apart from the
  sessions, each under the identifier it was written to; and the calls in flight for
  sessions that were deleted while they showed a loader, each under the identifier of
  its session with the state that session was in.
\<close>

record Page =
  app :: App
  leftovers :: "(string \<times> leftover) list"
  orphans :: "(string \<times> SessionState) list"

text \<open>
  \<^verbatim>\<open>handleDeleteSession\<close> on the whole store: \<^verbatim>\<open>delete newSessions[sessionId]\<close> removes
  what is under the identifier, a session or a leftover. The call of a session
  deleted in state \<open>GENERATING_QUIZ\<close> or \<open>SUBMITTING_QUIZ\<close> stays in flight.
\<close>

definition deleteAt :: "string \<Rightarrow> bool \<Rightarrow> Page \<Rightarrow> Page" where
  "deleteAt sessionId confirmed pg =
     (if confirmed
      then pg\<lparr>app := handleDeleteSession sessionId confirmed (app pg),
              leftovers := AList.delete sessionId (leftovers pg),
              orphans :=
                (case map_of (sessions (app pg)) sessionId of
                   None \<Rightarrow> orphans pg
                 | Some s \<Rightarrow>
                     if state s = GENERATING_QUIZ \<or> state s = SUBMITTING_QUIZ
                     then AList.update sessionId (state s) (orphans pg)
                     else orphans pg)\<rparr>
      else pg)"

text \<open>\<^verbatim>\<open>resetSession(true)\<close> deletes what the store holds under the active identifier.\<close>

definition forgetLeftover :: "string option \<Rightarrow> bool \<Rightarrow> Page \<Rightarrow> Page" where
  "forgetLeftover closedId confirmed pg =
     (case closedId of
        None \<Rightarrow> pg
      | Some aid \<Rightarrow>
          if aid = [] \<or> \<not> confirmed then pg
          else pg\<lparr>leftovers := AList.delete aid (leftovers pg)\<rparr>)"

definition inApp :: "Page \<Rightarrow> App option \<Rightarrow> Page option" where
  "inApp pg r = (case r of None \<Rightarrow> None | Some st' \<Rightarrow> Some (pg\<lparr>app := st'\<rparr>))"

text \<open>
  \<open>page_fire e pg\<close> is the page after event \<open>e\<close>, or \<open>None\<close> when the page has no
  control for \<open>e\<close>. On the sessions it is \<^const>\<open>fire\<close>. The list of documents shows a
  card for every object of the store (\<^verbatim>\<open>Object.values(sessions)\<close>), so also for a
  leftover; its two controls pass \<^verbatim>\<open>session.id\<close>, which is \<^verbatim>\<open>undefined\<close> there: the
  click sets \<^verbatim>\<open>activeSessionId\<close> to \<^verbatim>\<open>undefined\<close>, falsy as \<^verbatim>\<open>null\<close> is (the one
  comparison that tells them apart, in \<^verbatim>\<open>handleDeleteSession\<close>, only puts \<^verbatim>\<open>null\<close> in
  its place: both are \<open>None\<close>), and the delete button removes the property named
  \<open>undefined\<close>. An upload overwrites what the store holds under the new
  identifier. A call settles for its session while the store has it (as in
  \<^const>\<open>fire\<close>), and otherwise, when it is in flight for a deleted session, into a
  leftover. Session identifiers come from \<^verbatim>\<open>Date.now()\<close> and are taken not to be used
  twice while a call is in flight.
\<close>

fun page_fire :: "event \<Rightarrow> Page \<Rightarrow> Page option" where
  "page_fire (FileChosen f idNow accessNow) pg =
     inApp (case f of
              Readable name body \<Rightarrow>
                pg\<lparr>leftovers := AList.delete (''session-'' @ digits10 idNow) (leftovers pg)\<rparr>
            | NoFile \<Rightarrow> pg
            | Unreadable name \<Rightarrow> pg)
       (fire (FileChosen f idNow accessNow) (app pg))"
| "page_fire (SessionClicked key) pg =
     (case map_of (sessions (app pg)) key of
        Some session \<Rightarrow> inApp pg (fire (SessionClicked key) (app pg))
      | None \<Rightarrow>
          (case map_of (leftovers pg) key of
             None \<Rightarrow> None
           | Some l \<Rightarrow>
               if mainView (app pg) = DocumentSelection
               then Some (pg\<lparr>app := (app pg)\<lparr>activeSessionId := None\<rparr>\<rparr>) else None))"
| "page_fire (DeleteClicked key confirmed) pg =
     (case map_of (sessions (app pg)) key of
        Some session \<Rightarrow>
          if mainView (app pg) = DocumentSelection
          then Some (deleteAt (s_id session) confirmed pg) else None
      | None \<Rightarrow>
          (case map_of (leftovers pg) key of
             None \<Rightarrow> None
           | Some l \<Rightarrow>
               if mainView (app pg) = DocumentSelection
               then Some (deleteAt ''undefined'' confirmed pg) else None))"
| "page_fire (ChangeFileClicked confirmed now) pg =
     inApp (forgetLeftover (activeSessionId (app pg)) confirmed pg)
       (fire (ChangeFileClicked confirmed now) (app pg))"
| "page_fire (NewQuizClicked confirmed now) pg =
     inApp (forgetLeftover (activeSessionId (app pg)) confirmed pg)
       (fire (NewQuizClicked confirmed now) (app pg))"
| "page_fire (GenerateSettled aid reply clock now) pg =
     (case map_of (sessions (app pg)) aid of
        Some s \<Rightarrow> inApp pg (fire (GenerateSettled aid reply clock now) (app pg))
      | None \<Rightarrow>
          if aid \<noteq> [] \<and> map_of (orphans pg) aid = Some GENERATING_QUIZ
          then Some (pg\<lparr>leftovers :=
                       AList.update aid (generateLeftover (generateQuiz reply clock) now)
                         (leftovers pg),
                     orphans := AList.delete aid (orphans pg)\<rparr>)
          else None)"
| "page_fire (SubmitSettled aid reply now) pg =
     (case map_of (sessions (app pg)) aid of
        Some s \<Rightarrow> inApp pg (fire (SubmitSettled aid reply now) (app pg))
      | None \<Rightarrow>
          if aid \<noteq> [] \<and> map_of (orphans pg) aid = Some SUBMITTING_QUIZ
          then Some (pg\<lparr>leftovers :=
                       AList.update aid (submitLeftover (correctAndReviewQuiz reply) now)
                         (leftovers pg),
                     orphans := AList.delete aid (orphans pg)\<rparr>)
          else None)"
| "page_fire e pg = inApp pg (fire e (app pg))"

fun page_run :: "event list \<Rightarrow> Page \<Rightarrow> Page option" where
  "page_run [] pg = Some pg"
| "page_run (e # es) pg = (case page_fire e pg of None \<Rightarrow> None | Some pg' \<Rightarrow> page_run es pg')"

text \<open>The page once the load effect has run and found nothing saved.\<close>

definition startPage :: Page where
  "startPage = \<lparr>app = startApp, leftovers = [], orphans = []\<rparr>"

text \<open>
  When the two lists are the one store of the program: the store has one object
  under an identifier (the identifiers of the sessions are distinct and none holds a
  leftover too), every session is stored under its \<^verbatim>\<open>id\<close>, no call is in flight for an
  identifier that holds a leftover, and the active identifier is that of a session.
\<close>

definition coherent :: "Page \<Rightarrow> bool" where
  "coherent pg =
     (distinct (map fst (sessions (app pg)))
      \<and> list_all (\<lambda>(k, s). s_id s = k) (sessions (app pg))
      \<and> list_all (\<lambda>(k, l). map_of (sessions (app pg)) k = None) (leftovers pg)
      \<and> list_all (\<lambda>(k, p). map_of (leftovers pg) k = None) (orphans pg)
      \<and> (case activeSessionId (app pg) of
           None \<Rightarrow> True
         | Some aid \<Rightarrow> map_of (sessions (app pg)) aid \<noteq> None))"

section \<open>Persistence (the two effects of App.tsx)\<close>

text \<open>
  What the store is at run time: a JavaScript value. An object is the list of its own
  properties in insertion order.
\<close>

datatype jsval =
    VUndefined
  | VNull
  | VBool bool
  | VNum jsnum
  | VStr string
  | VArr "jsval list"
  | VObj "(string \<times> jsval) list"

text \<open>\<^verbatim>\<open>v[k]\<close> on an object; a property that is absent reads as \<^verbatim>\<open>undefined\<close>.\<close>

definition getProp :: "jsval \<Rightarrow> string \<Rightarrow> jsval" where
  "getProp v k =
     (case v of
        VObj kvs \<Rightarrow> (case map_of kvs k of None \<Rightarrow> VUndefined | Some x \<Rightarrow> x)
      | _ \<Rightarrow> VUndefined)"

text \<open>
  A JSON text, as the tree it denotes: white space and the escapes of strings are not
  modelled, and \<^verbatim>\<open>JSON.parse\<close> of the text written for a tree gives that tree back.
\<close>

datatype json =
    JNull
  | JBool bool
  | JNumber int
  | JString string
  | JArray "json list"
  | JObject "(string \<times> json) list"

text \<open>
  \<^verbatim>\<open>JSON.stringify\<close>: \<^verbatim>\<open>undefined\<close> has no text (the result is \<^verbatim>\<open>undefined\<close>), a
  property whose value has none is left out, an array element that has none is written
  \<^verbatim>\<open>null\<close>, and \<^verbatim>\<open>NaN\<close> is written \<^verbatim>\<open>null\<close>.
\<close>

fun JSON_stringify :: "jsval \<Rightarrow> json option" where
  "JSON_stringify VUndefined = None"
| "JSON_stringify VNull = Some JNull"
| "JSON_stringify (VBool b) = Some (JBool b)"
| "JSON_stringify (VNum NaN) = Some JNull"
| "JSON_stringify (VNum (Num n)) = Some (JNumber n)"
| "JSON_stringify (VStr s) = Some (JString s)"
| "JSON_stringify (VArr vs) =
     Some (JArray (map (\<lambda>v. case JSON_stringify v of None \<Rightarrow> JNull | Some j \<Rightarrow> j) vs))"
| "JSON_stringify (VObj kvs) =
     Some (JObject (concat (map (\<lambda>(k, v). case JSON_stringify v of
                                              None \<Rightarrow> []
                                            | Some j \<Rightarrow> [(k, j)]) kvs)))"

text \<open>A key written twice in an object keeps its first place and its last value.\<close>

definition lastWins :: "(string \<times> jsval) list \<Rightarrow> (string \<times> jsval) list" where
  "lastWins kvs = foldl (\<lambda>acc kv. AList.update (fst kv) (snd kv) acc) [] kvs"

fun JSON_parse :: "json \<Rightarrow> jsval" where
  "JSON_parse JNull = VNull"
| "JSON_parse (JBool b) = VBool b"
| "JSON_parse (JNumber n) = VNum (Num n)"
| "JSON_parse (JString s) = VStr s"
| "JSON_parse (JArray js) = VArr (map JSON_parse js)"
| "JSON_parse (JObject kvs) = VObj (lastWins (map (\<lambda>(k, j). (k, JSON_parse j)) kvs))"

text \<open>
  What \<^verbatim>\<open>localStorage.getItem\<close> returns: \<^verbatim>\<open>null\<close>, the empty string, a JSON text, or
  a text on which \<^verbatim>\<open>JSON.parse\<close> throws.
\<close>

datatype storage_item = NoItem | EmptyText | JsonText json | OtherText

text \<open>
  The load effect: a falsy item is skipped, a throwing \<^verbatim>\<open>JSON.parse\<close> is caught and
  logged, and \<^verbatim>\<open>setIsLoaded(true)\<close> runs in every case.
\<close>

definition loadEffect :: "storage_item \<Rightarrow> jsval AppState \<Rightarrow> jsval AppState" where
  "loadEffect savedSessions st =
     (case savedSessions of
        NoItem \<Rightarrow> st\<lparr>isLoaded := True\<rparr>
      | EmptyText \<Rightarrow> st\<lparr>isLoaded := True\<rparr>
      | JsonText j \<Rightarrow> st\<lparr>sessions := JSON_parse j, isLoaded := True\<rparr>
      | OtherText \<Rightarrow> st\<lparr>isLoaded := True\<rparr>)"

text \<open>
  The save effect, run with the \<^verbatim>\<open>sessions\<close> and \<^verbatim>\<open>isLoaded\<close> of a render; the result
  is the item in storage afterwards. \<open>writable\<close> is false when \<^verbatim>\<open>setItem\<close> throws (the
  quota), which is caught and logged. \<^verbatim>\<open>setItem\<close> writes \<^verbatim>\<open>undefined\<close> as the text
  \<^verbatim>\<open>undefined\<close>, which is no JSON.
\<close>

definition saveEffect :: "bool \<Rightarrow> jsval AppState \<Rightarrow> storage_item \<Rightarrow> storage_item" where
  "saveEffect writable st item =
     (if \<not> isLoaded st then item
      else if \<not> writable then item
      else (case JSON_stringify (sessions st) of
              None \<Rightarrow> OtherText
            | Some j \<Rightarrow> JsonText j))"

text \<open>
  React keeps the state (\<open>current\<close>) and calls the effects of a render with the values
  that render saw (\<open>rendered\<close>). The steps below may come in any order: the theorems
  hold for every schedule, the one of React included (at mount: both effects, then a
  render, then the save effect again).
\<close>

record World =
  current :: "jsval AppState"
  rendered :: "jsval AppState"
  disk :: storage_item

datatype sync_event =
    LoadEffectRuns
  | SaveEffectRuns bool
  | Rendered
  | SessionsSet "jsval \<Rightarrow> jsval"
  | ActiveSessionIdSet "string option"

fun sync_step :: "sync_event \<Rightarrow> World \<Rightarrow> World" where
  "sync_step LoadEffectRuns w = w\<lparr>current := loadEffect (disk w) (current w)\<rparr>"
| "sync_step (SaveEffectRuns writable) w =
     w\<lparr>disk := saveEffect writable (rendered w) (disk w)\<rparr>"
| "sync_step Rendered w = w\<lparr>rendered := current w\<rparr>"
| "sync_step (SessionsSet f) w =
     w\<lparr>current := (current w)\<lparr>sessions := f (sessions (current w))\<rparr>\<rparr>"
| "sync_step (ActiveSessionIdSet a) w =
     w\<lparr>current := (current w)\<lparr>activeSessionId := a\<rparr>\<rparr>"

fun sync_run :: "sync_event list \<Rightarrow> World \<Rightarrow> World" where
  "sync_run [] w = w"
| "sync_run (e # es) w = sync_run es (sync_step e w)"

definition mounted :: "storage_item \<Rightarrow> World" where
  "mounted item =
     \<lparr>current = initialApp (VObj []), rendered = initialApp (VObj []), disk = item\<rparr>"

subsection \<open>The sessions as run-time values\<close>

definition quizTypeValue :: "QuizType \<Rightarrow> string" where
  "quizTypeValue t =
     (case t of
        SINGLE \<Rightarrow> ''R'' @ [CHR 0xC3, CHR 0xA9] @ ''ponse Unique''
      | MULTIPLE \<Rightarrow> ''R'' @ [CHR 0xC3, CHR 0xA9] @ ''ponses Multiples''
      | MIXED \<Rightarrow> ''Mixte'')"

definition sessionStateValue :: "SessionState \<Rightarrow> int" where
  "sessionStateValue phase =
     (case phase of
        CONFIGURING_QUIZ \<Rightarrow> 0
      | GENERATING_QUIZ \<Rightarrow> 1
      | TAKING_QUIZ \<Rightarrow> 2
      | SUBMITTING_QUIZ \<Rightarrow> 3
      | REVIEWING_QUIZ \<Rightarrow> 4
      | ERROR \<Rightarrow> 5)"

definition toJS_Option :: "Option \<Rightarrow> jsval" where
  "toJS_Option opt = VObj [(''text'', VStr (o_text opt)), (''isCorrect'', VBool (o_isCorrect opt))]"

definition toJS_Question :: "Question \<Rightarrow> jsval" where
  "toJS_Question q =
     VObj [(''id'', VStr (q_id q)), (''questionText'', VStr (questionText q)),
           (''options'', VArr (map toJS_Option (options q))),
           (''type'', VStr (case q_type q of Single \<Rightarrow> ''single'' | Multiple \<Rightarrow> ''multiple''))]"

definition toJS_UserAnswers :: "UserAnswers \<Rightarrow> jsval" where
  "toJS_UserAnswers ua = VObj (map (\<lambda>kv. (fst kv, VArr (map VStr (snd kv)))) ua)"

definition toJS_QuizResult :: "QuizResult \<Rightarrow> jsval" where
  "toJS_QuizResult r =
     VObj [(''questionText'', VStr (r_questionText r)),
           (''userAnswer'', VArr (map VStr (userAnswer r))),
           (''correctAnswer'', VArr (map VStr (correctAnswer r))),
           (''isCorrect'', VBool (r_isCorrect r)),
           (''feedbackFR'', VStr (feedbackFR r)), (''feedbackAR'', VStr (feedbackAR r))]"

definition toJS_CorrectionResponse :: "CorrectionResponse \<Rightarrow> jsval" where
  "toJS_CorrectionResponse c =
     VObj [(''results'', VArr (map toJS_QuizResult (results c))),
           (''weakTopics'', VStr (c_weakTopics c))]"

definition toJS_DocumentSession :: "DocumentSession \<Rightarrow> jsval" where
  "toJS_DocumentSession s =
     VObj [(''id'', VStr (s_id s)), (''fileName'', VStr (fileName s)),
           (''content'', VStr (content s)), (''quizType'', VStr (quizTypeValue (quizType s))),
           (''numQuestions'', VNum (numQuestions s)),
           (''questions'', VArr (map toJS_Question (questions s))),
           (''userAnswers'', toJS_UserAnswers (userAnswers s)),
           (''correction'', (case correction s of
                               None \<Rightarrow> VNull
                             | Some c \<Rightarrow> toJS_CorrectionResponse c)),
           (''weakTopics'', (case weakTopics s of None \<Rightarrow> VUndefined | Some t \<Rightarrow> VStr t)),
           (''lastAccessed'', VNum (Num (int (lastAccessed s)))),
           (''state'', VNum (Num (sessionStateValue (state s)))),
           (''error'', (case error s of
                          ErrUndefined \<Rightarrow> VUndefined
                        | ErrNull \<Rightarrow> VNull
                        | ErrMsg m \<Rightarrow> VStr m))]"

definition toJS_Sessions :: "Sessions \<Rightarrow> jsval" where
  "toJS_Sessions ss = VObj (map (\<lambda>kv. (fst kv, toJS_DocumentSession (snd kv))) ss)"

definition toJS_App :: "App \<Rightarrow> jsval AppState" where
  "toJS_App st = \<lparr>sessions = toJS_Sessions (sessions st),
     activeSessionId = activeSessionId st, isLoaded = isLoaded st\<rparr>"

text \<open>
  Saving a store and loading it in a page that starts: the save effect of a render of
  \<open>st\<close> on a writable storage, then the load effect of a fresh component.
\<close>

definition savedThenLoaded :: "App \<Rightarrow> jsval" where
  "savedThenLoaded st =
     sessions (loadEffect (saveEffect True (toJS_App st) NoItem) (initialApp (VObj [])))"

subsection \<open>What a round trip through JSON keeps\<close>

text \<open>Every object of the value has each key once.\<close>

fun wellFormed :: "jsval \<Rightarrow> bool" where
  "wellFormed (VArr vs) = (\<forall>v \<in> set vs. wellFormed v)"
| "wellFormed (VObj kvs) = (distinct (map fst kvs) \<and> (\<forall>kv \<in> set kvs. wellFormed (snd kv)))"
| "wellFormed _ = True"

text \<open>
  \<open>reloaded v\<close> is \<^verbatim>\<open>JSON.parse(JSON.stringify(v))\<close> written out (lemma
  \<open>stringify_parse\<close>): properties that are \<^verbatim>\<open>undefined\<close> are gone, \<^verbatim>\<open>undefined\<close> in an
  array and \<^verbatim>\<open>NaN\<close> are \<^verbatim>\<open>null\<close>.
\<close>

fun reloaded :: "jsval \<Rightarrow> jsval" where
  "reloaded (VNum NaN) = VNull"
| "reloaded (VArr vs) = VArr (map (\<lambda>v. if v = VUndefined then VNull else reloaded v) vs)"
| "reloaded (VObj kvs) =
     VObj (map (\<lambda>kv. (fst kv, reloaded (snd kv))) (filter (\<lambda>kv. snd kv \<noteq> VUndefined) kvs))"
| "reloaded v = v"

text \<open>The value holds neither \<^verbatim>\<open>undefined\<close> nor \<^verbatim>\<open>NaN\<close>.\<close>

fun lossless :: "jsval \<Rightarrow> bool" where
  "lossless VUndefined = False"
| "lossless (VNum NaN) = False"
| "lossless (VArr vs) = (\<forall>v \<in> set vs. lossless v)"
| "lossless (VObj kvs) = (\<forall>kv \<in> set kvs. lossless (snd kv))"
| "lossless _ = True"

section \<open>Properties and examples\<close>

text \<open>\<^verbatim>\<open>activeSession.userAnswers[questionId]\<close>, \<open>None\<close> when there is none.\<close>

definition userAnswersAt :: "string \<Rightarrow> App \<Rightarrow> string list option" where
  "userAnswersAt questionId st =
     (case activeSession st of None \<Rightarrow> None | Some a \<Rightarrow> map_of (userAnswers a) questionId)"

text \<open>
  The condition of the specification: for every question of the session, its entry of
  \<open>userAnswers\<close> exists and is not empty.
\<close>

definition everyQuestionAnswered :: "DocumentSession \<Rightarrow> bool" where
  "everyQuestionAnswered s =
     (\<forall>q \<in> set (questions s).
        case map_of (userAnswers s) (q_id q) of None \<Rightarrow> False | Some xs \<Rightarrow> xs \<noteq> [])"

text \<open>
  No question of the session that has no entry in \<open>userAnswers\<close> is named like a function
  of \<^verbatim>\<open>Object.prototype\<close> that has parameters.
\<close>

definition noInheritedAnswer :: "DocumentSession \<Rightarrow> bool" where
  "noInheritedAnswer s =
     (\<forall>q \<in> set (questions s).
        map_of (userAnswers s) (q_id q) = None \<longrightarrow> \<not> hasLength (objectPrototype (q_id q)))"

text \<open>
  The history of one session along a run. \<open>creates k e\<close>: the event is the upload
  that stores a new session under \<open>k\<close>. \<open>target e st\<close>: the identifier whose entry a
  handler started by \<open>e\<close> updates, the one a settling call closed over and otherwise the
  active one.
\<close>

definition creates :: "string \<Rightarrow> event \<Rightarrow> bool" where
  "creates k e =
     (case e of
        FileChosen f idNow accessNow \<Rightarrow>
          (case f of Readable name body \<Rightarrow> k = ''session-'' @ digits10 idNow | _ \<Rightarrow> False)
      | _ \<Rightarrow> False)"

definition target :: "event \<Rightarrow> App \<Rightarrow> string option" where
  "target e st =
     (case e of
        GenerateSettled aid reply clock now \<Rightarrow> Some aid
      | SubmitSettled aid reply now \<Rightarrow> Some aid
      | _ \<Rightarrow> activeSessionId st)"

text \<open>
  A generation, or a grading, succeeds for the session under \<open>k\<close>; the error view's
  button is clicked while the session under \<open>k\<close> is active and holds the questions and
  answers \<open>held\<close>.
\<close>

definition generatesFor :: "string \<Rightarrow> event \<Rightarrow> Page \<Rightarrow> bool" where
  "generatesFor k e pg = (target e (app pg) = Some k \<and> isGenerationSuccess e)"

definition gradesFor :: "string \<Rightarrow> event \<Rightarrow> Page \<Rightarrow> bool" where
  "gradesFor k e pg = (target e (app pg) = Some k \<and> isGradingSuccess e)"

definition acknowledges ::
  "string \<Rightarrow> Question list \<times> UserAnswers \<Rightarrow> event \<Rightarrow> Page \<Rightarrow> bool" where
  "acknowledges k held e pg =
     (isAcknowledgement e \<and> activeSessionId (app pg) = Some k
      \<and> (case activeSession (app pg) of
           None \<Rightarrow> False
         | Some a \<Rightarrow> (questions a, userAnswers a) = held))"

text \<open>
  \<open>happenedSince created marks evs pg seen\<close> runs the events \<open>evs\<close> from page \<open>pg\<close>
  and tells whether an event marked by \<open>marks\<close> (read on the page it fires on) has
  fired after the last event \<open>created\<close> holds of, \<open>seen\<close> telling it of the events
  before \<open>evs\<close>.
\<close>

fun happenedSince ::
  "(event \<Rightarrow> bool) \<Rightarrow> (event \<Rightarrow> Page \<Rightarrow> bool) \<Rightarrow> event list \<Rightarrow> Page \<Rightarrow> bool \<Rightarrow> bool" where
  "happenedSince created marks [] pg seen = seen"
| "happenedSince created marks (e # es) pg seen =
     (case page_fire e pg of
        None \<Rightarrow> False
      | Some pg' \<Rightarrow> happenedSince created marks es pg' (\<not> created e \<and> (seen \<or> marks e pg)))"

definition everySession :: "(DocumentSession \<Rightarrow> bool) \<Rightarrow> App \<Rightarrow> bool" where
  "everySession P st = (\<forall>s \<in> set (map snd (sessions st)). P s)"

definition correctionOnlyInReview :: "DocumentSession \<Rightarrow> bool" where
  "correctionOnlyInReview s = (correction s \<noteq> None \<longrightarrow> state s = REVIEWING_QUIZ)"

definition emptyWhileConfiguring :: "DocumentSession \<Rightarrow> bool" where
  "emptyWhileConfiguring s =
     (state s = CONFIGURING_QUIZ \<longrightarrow> questions s = [] \<and> userAnswers s = [])"

definition neverGenerated :: "DocumentSession \<Rightarrow> bool" where
  "neverGenerated s =
     (questions s = [] \<and> userAnswers s = [] \<and> state s \<noteq> TAKING_QUIZ
      \<and> state s \<noteq> SUBMITTING_QUIZ \<and> state s \<noteq> REVIEWING_QUIZ)"

definition noStaleError :: "DocumentSession \<Rightarrow> bool" where
  "noStaleError s =
     (state s = GENERATING_QUIZ \<or> state s = SUBMITTING_QUIZ \<longrightarrow> error s = ErrNull)"

definition demoQuestion :: Question where
  "demoQuestion = \<lparr>q_id = ''q1'', questionText = ''Which letters are vowels?'',
     options = [\<lparr>o_text = ''A'', o_isCorrect = True\<rparr>, \<lparr>o_text = ''B'', o_isCorrect = False\<rparr>,
                \<lparr>o_text = ''E'', o_isCorrect = True\<rparr>],
     q_type = Multiple\<rparr>"

definition demoSession :: "SessionState \<Rightarrow> Question list \<Rightarrow> UserAnswers \<Rightarrow> DocumentSession" where
  "demoSession phase qs ua = \<lparr>s_id = ''session-1000'', fileName = ''doc1.txt'',
     content = ''Some text.'', quizType = MIXED, numQuestions = Num 5, questions = qs,
     userAnswers = ua, correction = None, weakTopics = None, lastAccessed = 1000,
     state = phase, error = ErrNull\<rparr>"

definition demoApp :: "DocumentSession \<Rightarrow> App" where
  "demoApp s = \<lparr>sessions = [(s_id s, s)], activeSessionId = Some (s_id s), isLoaded = True\<rparr>"

definition demoUpload :: event where
  "demoUpload = FileChosen (Readable ''doc1.txt'' ''Some text.'') 1000 1000"

definition demoCorrection :: CorrectionResponse where
  "demoCorrection = \<lparr>results = [\<lparr>r_questionText = ''Which letters are vowels?'',
       userAnswer = [''A''], correctAnswer = [''A'', ''E''], r_isCorrect = False,
       feedbackFR = ''E aussi.'', feedbackAR = ''E''\<rparr>],
     c_weakTopics = ''Vowels''\<rparr>"

text \<open>A reply of the generator with a question named like an inherited function and no option.\<close>

definition namedConstructor :: Question where
  "namedConstructor = \<lparr>q_id = ''constructor'', questionText = ''Which one?'', options = [],
     q_type = Single\<rparr>"

definition demoConstructorApp :: App where
  "demoConstructorApp =
     demoApp (demoSession TAKING_QUIZ [demoQuestion, namedConstructor] [(''q1'', [''A''])])"

definition demoQuizApp :: "string list \<Rightarrow> App" where
  "demoQuizApp xs = demoApp (demoSession TAKING_QUIZ [demoQuestion] [(''q1'', xs)])"

definition demoReviewApp :: App where
  "demoReviewApp = demoApp ((demoSession REVIEWING_QUIZ [demoQuestion] [(''q1'', [''A''])])
     \<lparr>correction := Some demoCorrection, weakTopics := Some ''Vowels''\<rparr>)"

text \<open>The answers of a question as \<^verbatim>\<open>handleAnswerChange\<close> reads them.\<close>

definition currentAnswers :: "string \<Rightarrow> App \<Rightarrow> string list" where
  "currentAnswers questionId st =
     (case userAnswersAt questionId st of None \<Rightarrow> [] | Some xs \<Rightarrow> xs)"

definition demoGeneratingApp :: App where
  "demoGeneratingApp = demoApp (demoSession GENERATING_QUIZ [] [])"

definition failedGradingTrace :: "event list" where
  "failedGradingTrace =
     [demoUpload, GenerateClicked 1001,
      GenerateSettled ''session-1000'' (ApiQuestions [demoQuestion]) (\<lambda>i. 1002) 1003,
      OptionClicked 0 0 1004, SubmitClicked 1005,
      SubmitSettled ''session-1000'' GraderThrows 1006, RecommencerClicked 1007]"

definition improvedTrace :: "event list" where
  "improvedTrace =
     [demoUpload, GenerateClicked 1001,
      GenerateSettled ''session-1000'' (ApiQuestions [demoQuestion]) (\<lambda>i. 1002) 1003,
      OptionClicked 0 0 1004, SubmitClicked 1005,
      SubmitSettled ''session-1000'' (GraderResult demoCorrection) 1006, ImproveClicked 1007]"

definition reviewedTrace :: "event list" where
  "reviewedTrace =
     [demoUpload, GenerateClicked 1001,
      GenerateSettled ''session-1000'' (ApiQuestions [demoQuestion]) (\<lambda>i. 1002) 1003,
      OptionClicked 0 0 1004, SubmitClicked 1005,
      SubmitSettled ''session-1000'' (GraderResult demoCorrection) 1006]"

definition failedGenerationTrace :: "event list" where
  "failedGenerationTrace =
     [demoUpload, GenerateClicked 1001,
      GenerateSettled ''session-1000'' ApiThrows (\<lambda>i. 1002) 1003]"

definition retryTrace :: "event list" where
  "retryTrace =
     [demoUpload, GenerateClicked 1001,
      GenerateSettled ''session-1000'' ApiThrows (\<lambda>i. 1002) 1003,
      RecommencerClicked 1004, GenerateClicked 1005]"

text \<open>
  A session deleted while its quiz is generated; the call settles, the card of what it
  leaves is clicked, and a second document is uploaded.
\<close>

definition deletedWhileGeneratingTrace :: "event list" where
  "deletedWhileGeneratingTrace =
     [demoUpload, GenerateClicked 1001, BackClicked, DeleteClicked ''session-1000'' True,
      GenerateSettled ''session-1000'' (ApiQuestions [demoQuestion]) (\<lambda>i. 1002) 1003,
      SessionClicked ''session-1000'',
      FileChosen (Readable ''doc2.txt'' ''More text.'') 2000 2000]"

definition pageOf :: "App \<Rightarrow> Page" where
  "pageOf st = \<lparr>app = st, leftovers = [], orphans = []\<rparr>"

definition secondSession :: DocumentSession where
  "secondSession = \<lparr>s_id = ''session-2000'', fileName = ''doc2.txt'',
     content = ''More text.'', quizType = MIXED, numQuestions = Num 5, questions = [],
     userAnswers = [], correction = None, weakTopics = None, lastAccessed = 2000,
     state = CONFIGURING_QUIZ, error = ErrUndefined\<rparr>"

definition leftoverPage :: Page where
  "leftoverPage = \<lparr>app = demoApp secondSession,
     leftovers = [(''session-1000'', LeftoverQuiz [demoQuestion] 1003)], orphans = []\<rparr>"

text \<open>Whether a step of a schedule is a run of the load effect.\<close>

fun isLoadEffect :: "sync_event \<Rightarrow> bool" where
  "isLoadEffect LoadEffectRuns = True"
| "isLoadEffect _ = False"

text \<open>A text found in storage at a mount, and the store after the count field was emptied.\<close>

definition demoStored :: json where
  "demoStored = JObject [(''session-1000'', JObject [(''id'', JString ''session-1000''),
     (''numQuestions'', JNumber 5), (''state'', JNumber 0)])]"

definition emptiedCountApp :: App where
  "emptiedCountApp = demoApp ((demoSession CONFIGURING_QUIZ [] [])
     \<lparr>numQuestions := NaN, lastAccessed := 1001, error := ErrUndefined\<rparr>)"

subsection \<open>What an event does to one session\<close>

text \<open>
  The transitions of a single session, read off the handlers and the views that offer
  them; \<open>fire_sessions\<close> below proves that \<^const>\<open>fire\<close> changes sessions in no other way.
\<close>

definition freshSession :: "DocumentSession \<Rightarrow> bool" where
  "freshSession s =
     (state s = CONFIGURING_QUIZ \<and> questions s = [] \<and> userAnswers s = []
      \<and> correction s = None \<and> weakTopics s = None \<and> error s = ErrUndefined)"

inductive session_step :: "event \<Rightarrow> DocumentSession \<Rightarrow> DocumentSession \<Rightarrow> bool" where
  count_typed:
    "state s = CONFIGURING_QUIZ \<Longrightarrow>
     session_step (NumQuestionsTyped v now) s
       (s\<lparr>numQuestions := Math_max (Num 1) (parseInt10 v), lastAccessed := now\<rparr>)"
| type_clicked:
    "state s = CONFIGURING_QUIZ \<Longrightarrow>
     session_step (QuizTypeClicked t now) s (s\<lparr>quizType := t, lastAccessed := now\<rparr>)"
| generation_requested:
    "state s = CONFIGURING_QUIZ \<Longrightarrow>
     session_step (GenerateClicked now) s
       (s\<lparr>state := GENERATING_QUIZ, error := ErrNull, lastAccessed := now\<rparr>)"
| generation_succeeded:
    "state s = GENERATING_QUIZ \<Longrightarrow> generateQuiz reply clock = Inr qs \<Longrightarrow> qs \<noteq> [] \<Longrightarrow>
     session_step (GenerateSettled aid reply clock now) s
       (s\<lparr>questions := qs, userAnswers := [], correction := None, state := TAKING_QUIZ,
          lastAccessed := now\<rparr>)"
| generation_failed:
    "state s = GENERATING_QUIZ \<Longrightarrow>
     session_step (GenerateSettled aid reply clock now) s
       (s\<lparr>error := ErrMsg m, state := ERROR, lastAccessed := now\<rparr>)"
| option_clicked:
    "state s = TAKING_QUIZ \<Longrightarrow>
     session_step (OptionClicked qIndex oIndex now) s (s\<lparr>userAnswers := ua, lastAccessed := now\<rparr>)"
| submission_requested:
    "state s = TAKING_QUIZ \<Longrightarrow>
     session_step (SubmitClicked now) s
       (s\<lparr>state := SUBMITTING_QUIZ, error := ErrNull, lastAccessed := now\<rparr>)"
| grading_succeeded:
    "state s = SUBMITTING_QUIZ \<Longrightarrow> correctAndReviewQuiz reply = Inr r \<Longrightarrow>
     session_step (SubmitSettled aid reply now) s
       (s\<lparr>correction := Some r, weakTopics := Some (c_weakTopics r), state := REVIEWING_QUIZ,
          lastAccessed := now\<rparr>)"
| grading_failed:
    "state s = SUBMITTING_QUIZ \<Longrightarrow>
     session_step (SubmitSettled aid reply now) s
       (s\<lparr>error := ErrMsg m, state := ERROR, lastAccessed := now\<rparr>)"
| improve_clicked:
    "state s = REVIEWING_QUIZ \<Longrightarrow>
     session_step (ImproveClicked now) s
       (s\<lparr>state := CONFIGURING_QUIZ, questions := [], userAnswers := [], correction := None,
          error := ErrNull, lastAccessed := now\<rparr>)"
| error_acknowledged:
    "state s = ERROR \<Longrightarrow>
     session_step (RecommencerClicked now) s
       (s\<lparr>state := CONFIGURING_QUIZ, error := ErrNull, lastAccessed := now\<rparr>)"

text \<open>
  The transitions of the store: a session is created, nothing stored changes, an
  identifier is deleted, one session takes a step, a leftover is written;
  \<open>page_fire_store\<close> below proves that \<^const>\<open>page_fire\<close> changes the store in no other way.
\<close>

inductive store_step :: "event \<Rightarrow> Page \<Rightarrow> Page \<Rightarrow> bool" where
  created:
    "creates k e \<Longrightarrow> \<forall>j. creates j e \<longrightarrow> j = k \<Longrightarrow> s_id v = k \<Longrightarrow> freshSession v \<Longrightarrow>
     sessions (app pg') = AList.update k v (sessions (app pg)) \<Longrightarrow>
     activeSessionId (app pg') = Some k \<Longrightarrow>
     leftovers pg' = AList.delete k (leftovers pg) \<Longrightarrow> orphans pg' = orphans pg \<Longrightarrow>
     store_step e pg pg'"
| kept:
    "\<forall>j. \<not> creates j e \<Longrightarrow> sessions (app pg') = sessions (app pg) \<Longrightarrow>
     leftovers pg' = leftovers pg \<Longrightarrow> orphans pg' = orphans pg \<Longrightarrow>
     activeSessionId (app pg') = activeSessionId (app pg) \<or> activeSessionId (app pg') = None
       \<or> (\<exists>key s. map_of (sessions (app pg)) key = Some s
             \<and> activeSessionId (app pg') = Some (s_id s)) \<Longrightarrow>
     store_step e pg pg'"
| deleted:
    "\<forall>j. \<not> creates j e \<Longrightarrow> sessions (app pg') = AList.delete k (sessions (app pg)) \<Longrightarrow>
     leftovers pg' = AList.delete k (leftovers pg) \<Longrightarrow>
     orphans pg' = orphans pg
       \<or> (\<exists>p. map_of (sessions (app pg)) k \<noteq> None \<and> orphans pg' = AList.update k p (orphans pg)) \<Longrightarrow>
     activeSessionId (app pg') = None
       \<or> (activeSessionId (app pg') = activeSessionId (app pg)
            \<and> activeSessionId (app pg) \<noteq> Some k) \<Longrightarrow>
     store_step e pg pg'"
| updated:
    "\<forall>j. \<not> creates j e \<Longrightarrow> k \<noteq> [] \<Longrightarrow> map_of (sessions (app pg)) k = Some s \<Longrightarrow>
     target e (app pg) = Some k \<Longrightarrow> session_step e s v \<Longrightarrow>
     sessions (app pg') = AList.update k v (sessions (app pg)) \<Longrightarrow>
     activeSessionId (app pg') = activeSessionId (app pg) \<Longrightarrow>
     leftovers pg' = leftovers pg \<Longrightarrow> orphans pg' = orphans pg \<Longrightarrow>
     store_step e pg pg'"
| leftover_written:
    "\<forall>j. \<not> creates j e \<Longrightarrow> map_of (sessions (app pg)) k = None \<Longrightarrow>
     sessions (app pg') = sessions (app pg) \<Longrightarrow>
     activeSessionId (app pg') = activeSessionId (app pg) \<Longrightarrow>
     leftovers pg' = AList.update k l (leftovers pg) \<Longrightarrow>
     orphans pg' = AList.delete k (orphans pg) \<Longrightarrow>
     store_step e pg pg'"

section \<open>The store under an update\<close>

lemma updateActiveSession_active:
  assumes "activeSession st = Some a"
  shows "\<exists>st'. updateActiveSession (activeSessionId st) upd now st = Some st'
           \<and> activeSession st' = Some ((upd a)\<lparr>lastAccessed := now\<rparr>)
           \<and> activeSessionId st' = activeSessionId st
           \<and> isLoaded st' = isLoaded st"
  using assms
  by (auto simp: activeSession_def updateActiveSession_def update_conv'
           split: option.splits if_splits)

lemma updateActiveSession_at:
  assumes "aid \<noteq> []" and "map_of (sessions st) aid = Some s"
  shows "updateActiveSession (Some aid) upd now st =
     Some (st\<lparr>sessions := AList.update aid ((upd s)\<lparr>lastAccessed := now\<rparr>) (sessions st)\<rparr>)"
  using assms by (simp add: updateActiveSession_def)

section \<open>The answer tracker\<close>

lemma toggle_set: "set (toggleAnswers (toggleAnswers xs opt True) opt True) = set xs"
  by (auto simp: toggleAnswers_def)

lemma toggle_absent: "opt \<notin> set xs \<Longrightarrow> toggleAnswers (toggleAnswers xs opt True) opt True = xs"
  by (auto simp: toggleAnswers_def filter_id_conv)

lemma toggle_present:
  "opt \<in> set xs \<Longrightarrow>
   toggleAnswers (toggleAnswers xs opt True) opt True = filter (\<lambda>a. a \<noteq> opt) xs @ [opt]"
  by (auto simp: toggleAnswers_def)

lemma toggle_distinct: "distinct xs \<Longrightarrow> distinct (toggleAnswers xs opt m)"
  by (auto simp: toggleAnswers_def)

lemma handleAnswerChange_active:
  assumes "activeSession st = Some a"
  shows "\<exists>st'. handleAnswerChange q opt m now st = Some st'
           \<and> activeSession st' = Some (a\<lparr>userAnswers :=
                 AList.update q (toggleAnswers (answersOf (userAnswers a) q) opt m) (userAnswers a),
                 lastAccessed := now\<rparr>)
           \<and> activeSessionId st' = activeSessionId st \<and> isLoaded st' = isLoaded st"
  using updateActiveSession_active [OF assms, of "\<lambda>s. s\<lparr>userAnswers :=
      AList.update q (toggleAnswers (answersOf (userAnswers a) q) opt m) (userAnswers a)\<rparr>" now] assms
  by (simp add: handleAnswerChange_def Let_def)

lemma handleAnswerChange_inactive:
  "activeSession st = None \<Longrightarrow> handleAnswerChange q opt m now st = Some st"
  by (simp add: handleAnswerChange_def)

lemma userAnswersAt_after:
  assumes "activeSession st = Some a"
    and "handleAnswerChange q opt m now st = Some st'"
  shows "userAnswersAt q' st' =
        (if q' = q then Some (toggleAnswers (answersOf (userAnswers a) q) opt m)
         else map_of (userAnswers a) q')"
  using handleAnswerChange_active [OF assms(1), of q opt m now] assms(2)
  by (auto simp: userAnswersAt_def update_conv')

lemma handleAnswerChange_returns: "\<exists>st'. handleAnswerChange q opt m now st = Some st'"
proof (cases "activeSession st")
  case None
  then show ?thesis by (simp add: handleAnswerChange_inactive)
next
  case (Some a)
  then show ?thesis using handleAnswerChange_active [OF Some, of q opt m now] by auto
qed

lemma currentAnswers_after:
  assumes "activeSession st = Some a"
    and "handleAnswerChange q opt m now st = Some st'"
  shows "currentAnswers q st' = toggleAnswers (currentAnswers q st) opt m"
    and "q' \<noteq> q \<Longrightarrow> userAnswersAt q' st' = userAnswersAt q' st"
    and "\<exists>a'. activeSession st' = Some a'"
  using userAnswersAt_after [OF assms, of q] userAnswersAt_after [OF assms, of q'] assms(1)
    handleAnswerChange_active [OF assms(1), of q opt m now] assms(2)
  by (auto simp: currentAnswers_def userAnswersAt_def answersOf_def)

text \<open>
  Claim C5, as amended. For every state, question identifier \<open>q\<close> and option text
  \<open>opt\<close>, two calls of \<^verbatim>\<open>handleAnswerChange(q, opt, true)\<close> in succession both return,
  and afterwards \<open>userAnswers[q]\<close> of the active session holds the same options as before
  (the same set); when \<open>opt\<close> was not selected before, the sequence itself is back (an
  entry that was missing is then the empty sequence); when \<open>opt\<close> was selected, the
  sequence is the one before without \<open>opt\<close>, followed by \<open>opt\<close>. The answers of the
  other questions are untouched.
\<close>

theorem toggle_twice_same_selection:
  "\<exists>st1 st2. handleAnswerChange q opt True now1 st = Some st1
      \<and> handleAnswerChange q opt True now2 st1 = Some st2
      \<and> set (currentAnswers q st2) = set (currentAnswers q st)
      \<and> (opt \<notin> set (currentAnswers q st) \<longrightarrow> currentAnswers q st2 = currentAnswers q st)
      \<and> (opt \<in> set (currentAnswers q st) \<longrightarrow>
            currentAnswers q st2 = filter (\<lambda>a. a \<noteq> opt) (currentAnswers q st) @ [opt])
      \<and> (\<forall>q'. q' \<noteq> q \<longrightarrow> userAnswersAt q' st2 = userAnswersAt q' st)"
proof (cases "activeSession st")
  case None
  then have "handleAnswerChange q opt True now1 st = Some st"
    and "handleAnswerChange q opt True now2 st = Some st"
    and "currentAnswers q st = []"
    by (simp_all add: handleAnswerChange_inactive currentAnswers_def userAnswersAt_def)
  then show ?thesis by simp
next
  case (Some a)
  obtain st1 where st1: "handleAnswerChange q opt True now1 st = Some st1"
    using handleAnswerChange_returns by blast
  obtain st2 where st2: "handleAnswerChange q opt True now2 st1 = Some st2"
    using handleAnswerChange_returns by blast
  obtain a1 where a1: "activeSession st1 = Some a1"
    using currentAnswers_after(3) [OF Some st1] by blast
  have c1: "currentAnswers q st1 = toggleAnswers (currentAnswers q st) opt True"
    by (rule currentAnswers_after(1) [OF Some st1])
  have c2: "currentAnswers q st2 = toggleAnswers (currentAnswers q st1) opt True"
    by (rule currentAnswers_after(1) [OF a1 st2])
  have others: "userAnswersAt q' st2 = userAnswersAt q' st" if "q' \<noteq> q" for q'
    using currentAnswers_after(2) [OF Some st1 that] currentAnswers_after(2) [OF a1 st2 that]
    by simp
  have "set (currentAnswers q st2) = set (currentAnswers q st)"
    by (simp add: c1 c2 toggle_set)
  moreover have "opt \<notin> set (currentAnswers q st) \<longrightarrow> currentAnswers q st2 = currentAnswers q st"
    by (simp add: c1 c2 toggle_absent)
  moreover have "opt \<in> set (currentAnswers q st) \<longrightarrow>
      currentAnswers q st2 = filter (\<lambda>a. a \<noteq> opt) (currentAnswers q st) @ [opt]"
    by (simp add: c1 c2 toggle_present)
  ultimately show ?thesis using st1 st2 others by blast
qed

text \<open>
  The claim as stated fails: with \<open>A\<close> then \<open>E\<close> selected, toggling \<open>A\<close> twice leaves
  \<open>E\<close> then \<open>A\<close>.
\<close>

theorem toggle_twice_reorders:
  "userAnswersAt ''q1'' (demoQuizApp [''A'', ''E'']) = Some [''A'', ''E'']
   \<and> map_option (userAnswersAt ''q1'')
        (Option.bind (handleAnswerChange ''q1'' ''A'' True 1001 (demoQuizApp [''A'', ''E'']))
           (handleAnswerChange ''q1'' ''A'' True 1002)) = Some (Some [''E'', ''A''])"
  by code_simp

theorem toggle_twice_same_selection_witness:
  "\<exists>st1 st2. handleAnswerChange ''q1'' ''E'' True 1001 (demoQuizApp [''A'']) = Some st1
      \<and> handleAnswerChange ''q1'' ''E'' True 1002 st1 = Some st2
      \<and> currentAnswers ''q1'' (demoQuizApp [''A'']) = [''A'']
      \<and> currentAnswers ''q1'' st2 = [''A'']"
proof -
  have before: "currentAnswers ''q1'' (demoQuizApp [''A'']) = [''A'']"
    by code_simp
  then have absent: "''E'' \<notin> set (currentAnswers ''q1'' (demoQuizApp [''A'']))"
    by simp
  from toggle_twice_same_selection [of "''q1''" "''E''" 1001 "demoQuizApp [''A'']" 1002]
    absent before
  show ?thesis by auto
qed

text \<open>
  Claim C10. \<^verbatim>\<open>handleAnswerChange\<close> returns, and for every question identifier \<open>q\<close>
  whose answers in the active session have no duplicate before the call, they have none
  after it, whatever question and option the call is about and in both modes.
\<close>

theorem handleAnswerChange_keeps_distinct:
  assumes "\<forall>xs. userAnswersAt q st = Some xs \<longrightarrow> distinct xs"
  shows "\<exists>st'. handleAnswerChange questionId optionText isMultiple now st = Some st'
           \<and> (\<forall>xs. userAnswersAt q st' = Some xs \<longrightarrow> distinct xs)"
proof -
  obtain st' where st': "handleAnswerChange questionId optionText isMultiple now st = Some st'"
    using handleAnswerChange_returns by blast
  have "\<forall>xs. userAnswersAt q st' = Some xs \<longrightarrow> distinct xs"
  proof (cases "activeSession st")
    case None
    then have "st' = st" using st' by (simp add: handleAnswerChange_inactive)
    then show ?thesis using assms by blast
  next
    case (Some a)
    note at = userAnswersAt_after [OF Some st', of q]
    have d: "distinct (answersOf (userAnswers a) q)"
    proof (cases "map_of (userAnswers a) q")
      case None
      then show ?thesis by (simp add: answersOf_def)
    next
      case (Some xs)
      then have "userAnswersAt q st = Some xs"
        using \<open>activeSession st = Some a\<close> by (simp add: userAnswersAt_def)
      then have "distinct xs" using assms by blast
      then show ?thesis using Some by (simp add: answersOf_def)
    qed
    show ?thesis
    proof (cases "q = questionId")
      case True
      then have "userAnswersAt q st' =
          Some (toggleAnswers (answersOf (userAnswers a) q) optionText isMultiple)"
        using at by simp
      then show ?thesis using d by (auto simp: toggle_distinct)
    next
      case False
      then have "userAnswersAt q st' = userAnswersAt q st"
        using at Some by (simp add: userAnswersAt_def)
      then show ?thesis using assms by metis
    qed
  qed
  with st' show ?thesis by blast
qed

theorem handleAnswerChange_keeps_distinct_witness:
  "\<exists>st'. handleAnswerChange ''q1'' ''E'' True 1001 (demoQuizApp [''A'']) = Some st'
     \<and> userAnswersAt ''q1'' (demoQuizApp [''A'']) = Some [''A'']
     \<and> userAnswersAt ''q1'' st' = Some [''A'', ''E''] \<and> distinct [''A'', ''E'']"
proof -
  have before: "userAnswersAt ''q1'' (demoQuizApp [''A'']) = Some [''A'']"
    by code_simp
  then have h: "\<forall>xs. userAnswersAt ''q1'' (demoQuizApp [''A'']) = Some xs \<longrightarrow> distinct xs"
    by simp
  from handleAnswerChange_keeps_distinct [OF h, of "''q1''" "''E''" True 1001]
  obtain st' where st': "handleAnswerChange ''q1'' ''E'' True 1001 (demoQuizApp [''A'']) = Some st'"
    by blast
  have "map_option (userAnswersAt ''q1'')
      (handleAnswerChange ''q1'' ''E'' True 1001 (demoQuizApp [''A''])) = Some (Some [''A'', ''E''])"
    by code_simp
  then have "userAnswersAt ''q1'' st' = Some [''A'', ''E'']"
    using st' by simp
  then show ?thesis using st' before by simp
qed

section \<open>The submit guard\<close>

lemma hasLength_entry:
  "map_of ua k = Some xs \<Longrightarrow> hasLength (getMember ua k) = (xs \<noteq> [])"
  by (simp add: getMember_def hasLength_def)

lemma hasLength_inherited:
  "map_of ua k = None \<Longrightarrow> hasLength (getMember ua k) = hasLength (objectPrototype k)"
  by (simp add: getMember_def)

text \<open>
  Claim C1, as amended. If there is an active session with at least one question, and for
  every question \<open>q\<close> of it \<open>userAnswers[q.id]\<close> exists and is not empty, the submit
  guard \<^verbatim>\<open>isQuizAnswered\<close> holds. Conversely, if the guard holds and no question without
  an entry is named like a function of \<^verbatim>\<open>Object.prototype\<close> that has parameters, then
  there is an active session, it has at least one question, and every question has an
  entry that is not empty. When the guard does not hold, \<^verbatim>\<open>handleSubmitQuiz\<close> returns
  at once and the state is unchanged. This holds for every state. (For a question named
  \<open>constructor\<close> the guard reads the inherited function, lemma
  \<open>submit_guard_reads_inherited_function\<close>; the amended claim says nothing of it.)
\<close>

theorem submit_guard_needs_a_question:
  "((\<exists>a. activeSession st = Some a \<and> questions a \<noteq> [] \<and> everyQuestionAnswered a)
      \<longrightarrow> isQuizAnswered st)
   \<and> (isQuizAnswered st \<longrightarrow> (\<forall>a. activeSession st = Some a \<longrightarrow> noInheritedAnswer a) \<longrightarrow>
        (\<exists>a. activeSession st = Some a \<and> questions a \<noteq> [] \<and> everyQuestionAnswered a))
   \<and> (\<not> isQuizAnswered st \<longrightarrow> handleSubmitQuiz_begin now st = Some st)"
proof -
  have enough: "isQuizAnswered st"
    if "activeSession st = Some a" and "questions a \<noteq> []" and all: "everyQuestionAnswered a"
    for a
  proof -
    have "hasLength (getMember (userAnswers a) (q_id q))" if q: "q \<in> set (questions a)" for q
    proof (cases "map_of (userAnswers a) (q_id q)")
      case None
      then show ?thesis using all q by (auto simp: everyQuestionAnswered_def)
    next
      case (Some xs)
      then have "xs \<noteq> []" using all q by (auto simp: everyQuestionAnswered_def)
      then show ?thesis using Some by (simp add: hasLength_entry)
    qed
    then show ?thesis using that(1,2) by (simp add: isQuizAnswered_def list_all_iff)
  qed
  have needed: "\<exists>a. activeSession st = Some a \<and> questions a \<noteq> [] \<and> everyQuestionAnswered a"
    if guard: "isQuizAnswered st" and own: "\<forall>a. activeSession st = Some a \<longrightarrow> noInheritedAnswer a"
  proof (cases "activeSession st")
    case None
    then show ?thesis using guard by (simp add: isQuizAnswered_def)
  next
    case (Some a)
    have some: "questions a \<noteq> []"
      and each: "\<And>q. q \<in> set (questions a) \<Longrightarrow> hasLength (getMember (userAnswers a) (q_id q))"
      using guard Some by (auto simp: isQuizAnswered_def list_all_iff split: if_splits)
    have plain: "noInheritedAnswer a" using own Some by simp
    have "case map_of (userAnswers a) (q_id q) of None \<Rightarrow> False | Some xs \<Rightarrow> xs \<noteq> []"
      if q: "q \<in> set (questions a)" for q
    proof (cases "map_of (userAnswers a) (q_id q)")
      case None
      then have "\<not> hasLength (objectPrototype (q_id q))"
        using plain q by (auto simp: noInheritedAnswer_def)
      then show ?thesis using each [OF q] None by (simp add: hasLength_inherited)
    next
      case (Some xs)
      then show ?thesis using each [OF q] by (simp add: hasLength_entry)
    qed
    then have "everyQuestionAnswered a" by (simp add: everyQuestionAnswered_def)
    then show ?thesis using Some some by simp
  qed
  have rejected: "\<not> isQuizAnswered st \<longrightarrow> handleSubmitQuiz_begin now st = Some st"
    by (simp add: handleSubmitQuiz_begin_def)
  from enough needed rejected show ?thesis by blast
qed

text \<open>
  The claim as stated fails where there is no question: for the session that an upload
  creates, every question (there is none) is answered, and the guard is false.
\<close>

theorem submit_guard_false_without_questions:
  "run [demoUpload] startApp
     = Some (demoApp ((demoSession CONFIGURING_QUIZ [] [])\<lparr>error := ErrUndefined\<rparr>))
   \<and> everyQuestionAnswered ((demoSession CONFIGURING_QUIZ [] [])\<lparr>error := ErrUndefined\<rparr>)
   \<and> \<not> isQuizAnswered (demoApp ((demoSession CONFIGURING_QUIZ [] [])\<lparr>error := ErrUndefined\<rparr>))"
  by code_simp

theorem submit_guard_needs_a_question_witness:
  "activeSession (demoQuizApp [''A''])
     = Some (demoSession TAKING_QUIZ [demoQuestion] [(''q1'', [''A''])])
   \<and> noInheritedAnswer (demoSession TAKING_QUIZ [demoQuestion] [(''q1'', [''A''])])
   \<and> everyQuestionAnswered (demoSession TAKING_QUIZ [demoQuestion] [(''q1'', [''A''])])
   \<and> isQuizAnswered (demoQuizApp [''A''])
   \<and> \<not> isQuizAnswered (demoQuizApp [])
   \<and> handleSubmitQuiz_begin 1001 (demoQuizApp []) = Some (demoQuizApp [])"
proof -
  let ?a = "demoSession TAKING_QUIZ [demoQuestion] [(''q1'', [''A''])]"
  have active: "activeSession (demoQuizApp [''A'']) = Some ?a" by code_simp
  have plain: "noInheritedAnswer ?a" by code_simp
  have all: "everyQuestionAnswered ?a" by code_simp
  have some: "questions ?a \<noteq> []" by (simp add: demoSession_def)
  have no: "\<not> isQuizAnswered (demoQuizApp [])" by code_simp
  have yes: "isQuizAnswered (demoQuizApp [''A''])"
    using submit_guard_needs_a_question [of "demoQuizApp [''A'']" 1001] active some all
    by blast
  have "\<exists>a. activeSession (demoQuizApp [''A'']) = Some a \<and> questions a \<noteq> []
      \<and> everyQuestionAnswered a"
    using submit_guard_needs_a_question [of "demoQuizApp [''A'']" 1001] yes active plain
    by simp
  moreover have "handleSubmitQuiz_begin 1001 (demoQuizApp []) = Some (demoQuizApp [])"
    using submit_guard_needs_a_question [of "demoQuizApp []" 1001] no by blast
  ultimately show ?thesis using active plain all yes no by simp
qed

text \<open>
  Where the guard reads an inherited function: the question named \<open>constructor\<close> has no
  entry, \<^verbatim>\<open>userAnswers["constructor"]\<close> is the function \<^verbatim>\<open>Object\<close> with one parameter,
  and the guard holds although not every question is answered.
\<close>

lemma submit_guard_reads_inherited_function:
  "mainView demoConstructorApp = Quiz
   \<and> getMember [(''q1'', [''A''])] ''constructor'' = InheritedFunction 1
   \<and> isQuizAnswered demoConstructorApp
   \<and> \<not> everyQuestionAnswered
         (demoSession TAKING_QUIZ [demoQuestion, namedConstructor] [(''q1'', [''A''])])"
  by code_simp

section \<open>The outcome of a generation\<close>

lemma msgs_nonempty:
  "msg_no_questions \<noteq> []" "msg_unknown \<noteq> []" "msg_generate_failed \<noteq> []"
  "msg_correct_failed \<noteq> []"
  by (simp_all add: msg_no_questions_def msg_unknown_def msg_generate_failed_def
        msg_correct_failed_def)

lemma generateQuiz_throws: "generateQuiz reply clock = Inl err \<Longrightarrow> errorMessage err \<noteq> []"
  by (auto simp: generateQuiz_def errorMessage_def msgs_nonempty split: api_reply.splits)

text \<open>
  Claim C2. Let \<open>s\<close> be the session for which \<^verbatim>\<open>handleGenerateQuiz\<close> called the
  generator (the active session of that render, in state \<open>GENERATING_QUIZ\<close> since the
  first part of the handler). The second part of the handler returns, and: if the
  generator returned at least one question, the session's questions are exactly that
  sequence, its answers are empty, its correction is null and its state is
  \<open>TAKING_QUIZ\<close>; if it returned no question or failed, the state is \<open>ERROR\<close>, the
  error is a message that is not empty, and questions, answers and correction are as
  before. The theorem needs no assumption on the state of \<open>s\<close>.
\<close>

theorem generation_outcome_stored:
  assumes "aid \<noteq> []" and "map_of (sessions st) aid = Some s"
  shows "\<exists>st' s'. handleGenerateQuiz_resume (Some aid) (generateQuiz reply clock) now st = Some st'
           \<and> map_of (sessions st') aid = Some s'
           \<and> (\<forall>qs. generateQuiz reply clock = Inr qs \<longrightarrow> qs \<noteq> [] \<longrightarrow>
                  questions s' = qs \<and> userAnswers s' = [] \<and> correction s' = None
                  \<and> state s' = TAKING_QUIZ)
           \<and> (generateQuiz reply clock = Inr [] \<or> (\<exists>err. generateQuiz reply clock = Inl err) \<longrightarrow>
                  state s' = ERROR \<and> (\<exists>m. error s' = ErrMsg m \<and> m \<noteq> [])
                  \<and> questions s' = questions s \<and> userAnswers s' = userAnswers s
                  \<and> correction s' = correction s)"
proof (cases "generateQuiz reply clock")
  case (Inl err)
  then have "errorMessage err \<noteq> []" by (rule generateQuiz_throws)
  then show ?thesis
    using Inl assms
    by (simp add: handleGenerateQuiz_resume_def failSession_def updateActiveSession_at update_conv')
next
  case (Inr qs)
  show ?thesis
  proof (cases "qs = []")
    case True
    then show ?thesis
      using Inr assms
      by (simp add: handleGenerateQuiz_resume_def failSession_def updateActiveSession_at
            update_conv' errorMessage_def msgs_nonempty)
  next
    case False
    then show ?thesis
      using Inr assms
      by (simp add: handleGenerateQuiz_resume_def updateActiveSession_at update_conv')
  qed
qed

theorem generation_outcome_stored_witness:
  "map_of (sessions demoGeneratingApp) ''session-1000'' = Some (demoSession GENERATING_QUIZ [] [])
   \<and> generateQuiz (ApiQuestions [demoQuestion]) (\<lambda>i. 1002) = Inr [demoQuestion]
   \<and> handleGenerateQuiz_resume (Some ''session-1000'')
        (generateQuiz (ApiQuestions [demoQuestion]) (\<lambda>i. 1002)) 1003 demoGeneratingApp
      = Some (demoApp ((demoSession TAKING_QUIZ [demoQuestion] [])\<lparr>lastAccessed := 1003\<rparr>))
   \<and> generateQuiz ApiThrows (\<lambda>i. 1002) = Inl (ErrorObject msg_generate_failed)
   \<and> handleGenerateQuiz_resume (Some ''session-1000'')
        (generateQuiz ApiThrows (\<lambda>i. 1002)) 1003 demoGeneratingApp
      = Some (demoApp ((demoSession ERROR [] [])
                \<lparr>lastAccessed := 1003, error := ErrMsg msg_generate_failed\<rparr>))"
proof -
  have stored: "map_of (sessions demoGeneratingApp) ''session-1000''
      = Some (demoSession GENERATING_QUIZ [] [])"
    by code_simp
  have named: "''session-1000'' \<noteq> []" by simp
  have ok: "generateQuiz (ApiQuestions [demoQuestion]) (\<lambda>i. 1002) = Inr [demoQuestion]"
    by code_simp
  have ko: "generateQuiz ApiThrows (\<lambda>i. 1002) = Inl (ErrorObject msg_generate_failed)"
    by code_simp
  note good = generation_outcome_stored
    [OF named stored, of "ApiQuestions [demoQuestion]" "\<lambda>i. 1002" 1003]
  note bad = generation_outcome_stored [OF named stored, of ApiThrows "\<lambda>i. 1002" 1003]
  have r1: "handleGenerateQuiz_resume (Some ''session-1000'')
        (generateQuiz (ApiQuestions [demoQuestion]) (\<lambda>i. 1002)) 1003 demoGeneratingApp
      = Some (demoApp ((demoSession TAKING_QUIZ [demoQuestion] [])\<lparr>lastAccessed := 1003\<rparr>))"
    by code_simp
  have r2: "handleGenerateQuiz_resume (Some ''session-1000'')
        (generateQuiz ApiThrows (\<lambda>i. 1002)) 1003 demoGeneratingApp
      = Some (demoApp ((demoSession ERROR [] [])
                \<lparr>lastAccessed := 1003, error := ErrMsg msg_generate_failed\<rparr>))"
    by code_simp
  from good bad stored ok ko r1 r2 show ?thesis by simp
qed

section \<open>The question-count field\<close>

text \<open>
  Claim C4 fails on the code. In the configuration view, an emptied field gives the
  handler the empty string: \<^verbatim>\<open>parseInt\<close> returns \<^verbatim>\<open>NaN\<close>, \<^verbatim>\<open>Math.max(1, NaN)\<close> is
  \<^verbatim>\<open>NaN\<close>, and that is stored as \<open>numQuestions\<close>. The handler does not cap the count
  either: the text \<open>25\<close> stores 25.
\<close>

theorem emptied_count_field_stores_NaN:
  "mainView (demoApp (demoSession CONFIGURING_QUIZ [] [])) = QuizConfig
   \<and> parseInt10 [] = NaN
   \<and> map_option numQuestions
        (Option.bind (fire (NumQuestionsTyped [] 1001) (demoApp (demoSession CONFIGURING_QUIZ [] [])))
           activeSession) = Some NaN
   \<and> map_option numQuestions
        (Option.bind (fire (NumQuestionsTyped ''25'' 1001) (demoApp (demoSession CONFIGURING_QUIZ [] [])))
           activeSession) = Some (Num 25)"
  by code_simp

section \<open>A new quiz on the same document\<close>

text \<open>
  Claim C6, as amended. For every active session (in state \<open>REVIEWING_QUIZ\<close> or any
  other), the button of the review that starts a new quiz on the same document sets the
  state to \<open>CONFIGURING_QUIZ\<close>, empties questions and answers, sets correction and
  error to null, and leaves \<open>id\<close>, \<open>fileName\<close>, \<open>content\<close> and \<open>weakTopics\<close> as they
  were. \<^verbatim>\<open>resetSession(false)\<close>, which no control of the page calls, does the same and
  also unsets \<open>weakTopics\<close>.
\<close>

theorem new_quiz_keeps_weakTopics:
  assumes "activeSession st = Some a"
  shows "(\<exists>st' a'. onImproveClick now st = Some st' \<and> activeSession st' = Some a'
            \<and> state a' = CONFIGURING_QUIZ \<and> questions a' = [] \<and> userAnswers a' = []
            \<and> correction a' = None \<and> error a' = ErrNull \<and> weakTopics a' = weakTopics a
            \<and> s_id a' = s_id a \<and> fileName a' = fileName a \<and> content a' = content a)
       \<and> (\<exists>st' a'. resetSession False confirmed now st = Some st' \<and> activeSession st' = Some a'
            \<and> state a' = CONFIGURING_QUIZ \<and> questions a' = [] \<and> userAnswers a' = []
            \<and> correction a' = None \<and> error a' = ErrNull \<and> weakTopics a' = None
            \<and> s_id a' = s_id a \<and> fileName a' = fileName a \<and> content a' = content a)"
proof -
  have truthy: "\<exists>aid. activeSessionId st = Some aid \<and> aid \<noteq> []"
    using assms by (auto simp: activeSession_def split: option.splits if_splits)
  have improve: "\<exists>st' a'. onImproveClick now st = Some st' \<and> activeSession st' = Some a'
            \<and> state a' = CONFIGURING_QUIZ \<and> questions a' = [] \<and> userAnswers a' = []
            \<and> correction a' = None \<and> error a' = ErrNull \<and> weakTopics a' = weakTopics a
            \<and> s_id a' = s_id a \<and> fileName a' = fileName a \<and> content a' = content a"
    using updateActiveSession_active [OF assms, of "\<lambda>s. s\<lparr>state := CONFIGURING_QUIZ,
        questions := [], userAnswers := [], correction := None, error := ErrNull\<rparr>" now]
    by (auto simp: onImproveClick_def)
  have reset: "\<exists>st' a'. resetSession False confirmed now st = Some st' \<and> activeSession st' = Some a'
            \<and> state a' = CONFIGURING_QUIZ \<and> questions a' = [] \<and> userAnswers a' = []
            \<and> correction a' = None \<and> error a' = ErrNull \<and> weakTopics a' = None
            \<and> s_id a' = s_id a \<and> fileName a' = fileName a \<and> content a' = content a"
    using updateActiveSession_active [OF assms, of "\<lambda>s. s\<lparr>state := CONFIGURING_QUIZ,
        questions := [], userAnswers := [], correction := None, error := ErrNull,
        weakTopics := None\<rparr>" now] truthy
    by (auto simp: resetSession_def)
  from improve reset show ?thesis by blast
qed

text \<open>
  The claim as stated fails: the review offers the button, and after it the weak topics
  of the graded quiz are still set.
\<close>

theorem new_quiz_after_review_has_weakTopics:
  "mainView demoReviewApp = Review \<and> hasWeakTopics demoReviewApp
   \<and> map_option weakTopics (Option.bind (fire (ImproveClicked 1009) demoReviewApp) activeSession)
       = Some (Some ''Vowels'')"
  by code_simp

theorem new_quiz_keeps_weakTopics_witness:
  "activeSession demoReviewApp
     = Some ((demoSession REVIEWING_QUIZ [demoQuestion] [(''q1'', [''A''])])
         \<lparr>correction := Some demoCorrection, weakTopics := Some ''Vowels''\<rparr>)
   \<and> onImproveClick 1009 demoReviewApp = Some (demoApp ((demoSession CONFIGURING_QUIZ [] [])
       \<lparr>weakTopics := Some ''Vowels'', lastAccessed := 1009\<rparr>))
   \<and> resetSession False True 1009 demoReviewApp = Some (demoApp ((demoSession CONFIGURING_QUIZ [] [])
       \<lparr>lastAccessed := 1009\<rparr>))"
proof -
  have active: "activeSession demoReviewApp
     = Some ((demoSession REVIEWING_QUIZ [demoQuestion] [(''q1'', [''A''])])
         \<lparr>correction := Some demoCorrection, weakTopics := Some ''Vowels''\<rparr>)"
    by code_simp
  note new_quiz_keeps_weakTopics [OF active, of 1009 True]
  moreover have "onImproveClick 1009 demoReviewApp
      = Some (demoApp ((demoSession CONFIGURING_QUIZ [] [])
          \<lparr>weakTopics := Some ''Vowels'', lastAccessed := 1009\<rparr>))"
    by code_simp
  moreover have "resetSession False True 1009 demoReviewApp
      = Some (demoApp ((demoSession CONFIGURING_QUIZ [] [])\<lparr>lastAccessed := 1009\<rparr>))"
    by code_simp
  ultimately show ?thesis using active by simp
qed

section \<open>Every run of the page\<close>

lemma set_update_subset: "set (AList.update k v al) \<subseteq> insert (k, v) (set al)"
  by (induct al) auto

lemma snd_update_subset:
  "s' \<in> set (map snd (AList.update k v al)) \<Longrightarrow> s' = v \<or> s' \<in> set (map snd al)"
  using set_update_subset [of k v al] by force

lemma snd_delete_subset:
  "s' \<in> set (map snd (AList.delete k al)) \<Longrightarrow> s' \<in> set (map snd al)"
  by (auto simp: AList.delete_eq)

lemma lookup_in_store: "map_of al k = Some s \<Longrightarrow> s \<in> set (map snd al)"
  by (force dest: map_of_SomeD)

lemma updateActiveSession_sessions:
  assumes "updateActiveSession c upd now st = Some st'"
    and "s' \<in> set (map snd (sessions st'))"
  shows "s' \<in> set (map snd (sessions st))
     \<or> (\<exists>aid s. c = Some aid \<and> aid \<noteq> [] \<and> map_of (sessions st) aid = Some s
           \<and> s' = (upd s)\<lparr>lastAccessed := now\<rparr>)"
proof (cases c)
  case None
  then show ?thesis using assms by (simp add: updateActiveSession_def)
next
  case (Some aid)
  show ?thesis
  proof (cases "aid = []")
    case True
    then show ?thesis using assms Some by (simp add: updateActiveSession_def)
  next
    case False
    show ?thesis
    proof (cases "map_of (sessions st) aid")
      case None
      then show ?thesis using assms Some False by (simp add: updateActiveSession_def)
    next
      case (Some s)
      let ?new = "(upd s)\<lparr>lastAccessed := now\<rparr>"
      have "st' = st\<lparr>sessions := AList.update aid ?new (sessions st)\<rparr>"
        using assms(1) Some \<open>c = Some aid\<close> False by (simp add: updateActiveSession_def)
      then have eq: "sessions st' = AList.update aid ?new (sessions st)"
        by simp
      have "s' \<in> set (map snd (AList.update aid ?new (sessions st)))"
        using assms(2) unfolding eq .
      then have "s' = ?new \<or> s' \<in> set (map snd (sessions st))"
        by (rule snd_update_subset)
      then show ?thesis using Some \<open>c = Some aid\<close> False by blast
    qed
  qed
qed

lemma mainView_state:
  assumes "activeSessionId st = Some aid" and "aid \<noteq> []"
    and "map_of (sessions st) aid = Some s"
  shows "mainView st = QuizConfig \<Longrightarrow> state s = CONFIGURING_QUIZ"
    and "mainView st = Quiz \<Longrightarrow> state s = TAKING_QUIZ"
    and "mainView st = Review \<Longrightarrow> state s = REVIEWING_QUIZ"
    and "mainView st = ErrorView \<Longrightarrow> state s = ERROR"
  using assms
  by (auto simp: mainView_def renderActiveSession_def activeSession_def
           split: if_splits SessionState.splits)

lemma awaiting_state:
  "awaiting phase aid st \<Longrightarrow> map_of (sessions st) aid = Some s \<Longrightarrow> state s = phase"
  by (simp add: awaiting_def)


lemma gated_update_sessions:
  assumes "updateActiveSession (activeSessionId st) upd now st = Some st'"
    and "s' \<in> set (map snd (sessions st'))"
    and gate: "\<And>aid s. activeSessionId st = Some aid \<Longrightarrow> aid \<noteq> [] \<Longrightarrow>
       map_of (sessions st) aid = Some s \<Longrightarrow> state s = phase"
  shows "s' \<in> set (map snd (sessions st))
     \<or> (\<exists>s \<in> set (map snd (sessions st)). state s = phase \<and> s' = (upd s)\<lparr>lastAccessed := now\<rparr>)"
proof -
  from updateActiveSession_sessions [OF assms(1,2)]
  consider "s' \<in> set (map snd (sessions st))"
    | aid s where "activeSessionId st = Some aid" "aid \<noteq> []" "map_of (sessions st) aid = Some s"
        "s' = (upd s)\<lparr>lastAccessed := now\<rparr>"
    by blast
  then show ?thesis
  proof cases
    case 1
    then show ?thesis by simp
  next
    case 2
    have "state s = phase" using 2(1-3) by (rule gate)
    moreover have "s \<in> set (map snd (sessions st))" using 2(3) by (rule lookup_in_store)
    ultimately show ?thesis using 2(4) by blast
  qed
qed

lemma settled_update_sessions:
  assumes "updateActiveSession (Some aid) upd now st = Some st'"
    and "s' \<in> set (map snd (sessions st'))"
    and "awaiting phase aid st"
  shows "s' \<in> set (map snd (sessions st))
     \<or> (\<exists>s \<in> set (map snd (sessions st)). state s = phase \<and> s' = (upd s)\<lparr>lastAccessed := now\<rparr>)"
proof -
  from updateActiveSession_sessions [OF assms(1,2)]
  consider "s' \<in> set (map snd (sessions st))"
    | s where "map_of (sessions st) aid = Some s" "s' = (upd s)\<lparr>lastAccessed := now\<rparr>"
    by blast
  then show ?thesis
  proof cases
    case 1
    then show ?thesis by simp
  next
    case 2
    have "state s = phase" using assms(3) 2(1) by (rule awaiting_state)
    moreover have "s \<in> set (map snd (sessions st))" using 2(1) by (rule lookup_in_store)
    ultimately show ?thesis using 2(2) by blast
  qed
qed

lemma resetSession_newFile_sessions:
  assumes "resetSession True confirmed now st = Some st'"
    and "s' \<in> set (map snd (sessions st'))"
  shows "s' \<in> set (map snd (sessions st))"
proof (cases "activeSessionId st")
  case None
  then show ?thesis using assms by (simp add: resetSession_def)
next
  case (Some aid)
  show ?thesis
  proof (cases "aid = [] \<or> \<not> confirmed")
    case True
    then have "sessions st' = sessions st"
      using assms(1) Some by (auto simp: resetSession_def handleDeleteSession_def split: if_splits)
    then show ?thesis using assms(2) by simp
  next
    case False
    then have "sessions st' = AList.delete aid (sessions st)"
      using assms(1) Some by (auto simp: resetSession_def handleDeleteSession_def split: if_splits)
    then show ?thesis using assms(2) snd_delete_subset by metis
  qed
qed

lemma fire_sessions:
  assumes "fire e st = Some st'" and mem: "s' \<in> set (map snd (sessions st'))"
  shows "s' \<in> set (map snd (sessions st)) \<or> freshSession s'
     \<or> (\<exists>s \<in> set (map snd (sessions st)). session_step e s s')"
proof (cases e)
  case (FileChosen f idNow accessNow)
  then have st': "st' = handleFileChange f idNow accessNow st"
    using assms(1) by (simp split: if_splits)
  show ?thesis
  proof (cases f)
    case (Readable name body)
    let ?new = "\<lparr>s_id = ''session-'' @ digits10 idNow, fileName = name, content = body,
        quizType = MIXED, numQuestions = Num 5, questions = [], userAnswers = [],
        correction = None, weakTopics = None, lastAccessed = accessNow,
        state = CONFIGURING_QUIZ, error = ErrUndefined\<rparr>"
    have "sessions st' = AList.update (''session-'' @ digits10 idNow) ?new (sessions st)"
      using st' Readable by (simp add: Let_def)
    then have "s' \<in> set (map snd (AList.update (''session-'' @ digits10 idNow) ?new (sessions st)))"
      using mem by simp
    then have "s' = ?new \<or> s' \<in> set (map snd (sessions st))"
      by (rule snd_update_subset)
    moreover have "freshSession ?new" by (simp add: freshSession_def)
    ultimately show ?thesis by auto
  next
    case NoFile
    then show ?thesis using st' mem by simp
  next
    case (Unreadable name)
    then show ?thesis using st' mem by simp
  qed
next
  case (SessionClicked key)
  then have "sessions st' = sessions st"
    using assms(1) by (auto split: if_splits option.splits)
  then show ?thesis using mem by simp
next
  case BackClicked
  then have "sessions st' = sessions st"
    using assms(1) by (auto split: if_splits option.splits)
  then show ?thesis using mem by simp
next
  case (DeleteClicked key confirmed)
  then obtain sid where "st' = handleDeleteSession sid confirmed st"
    using assms(1) by (auto split: if_splits option.splits)
  then have "sessions st' = sessions st \<or> sessions st' = AList.delete sid (sessions st)"
    by (simp add: handleDeleteSession_def)
  then show ?thesis using mem snd_delete_subset by metis
next
  case (NumQuestionsTyped v now)
  then have view: "mainView st = QuizConfig"
    and upd: "updateActiveSession (activeSessionId st)
        (\<lambda>s. s\<lparr>numQuestions := Math_max (Num 1) (parseInt10 v)\<rparr>) now st = Some st'"
    using assms(1) by (simp_all add: onNumQuestionsChange_def split: if_splits)
  from gated_update_sessions [OF upd mem, of CONFIGURING_QUIZ] mainView_state(1) view
  have "s' \<in> set (map snd (sessions st))
     \<or> (\<exists>s \<in> set (map snd (sessions st)). state s = CONFIGURING_QUIZ
          \<and> s' = s\<lparr>numQuestions := Math_max (Num 1) (parseInt10 v), lastAccessed := now\<rparr>)"
    by blast
  then show ?thesis using NumQuestionsTyped session_step.count_typed by blast
next
  case (QuizTypeClicked t now)
  then have view: "mainView st = QuizConfig"
    and upd: "updateActiveSession (activeSessionId st) (\<lambda>s. s\<lparr>quizType := t\<rparr>) now st = Some st'"
    using assms(1) by (simp_all add: onQuizTypeClick_def split: if_splits)
  from gated_update_sessions [OF upd mem, of CONFIGURING_QUIZ] mainView_state(1) view
  have "s' \<in> set (map snd (sessions st))
     \<or> (\<exists>s \<in> set (map snd (sessions st)). state s = CONFIGURING_QUIZ
          \<and> s' = s\<lparr>quizType := t, lastAccessed := now\<rparr>)"
    by blast
  then show ?thesis using QuizTypeClicked session_step.type_clicked by blast
next
  case (ChangeFileClicked confirmed now)
  then have "resetSession True confirmed now st = Some st'"
    using assms(1) by (simp split: if_splits)
  then show ?thesis using mem resetSession_newFile_sessions by blast
next
  case (GenerateClicked now)
  then have view: "mainView st = QuizConfig"
    and "handleGenerateQuiz_begin now st = Some st'"
    using assms(1) by (simp_all split: if_splits)
  then have "sessions st' = sessions st \<or> updateActiveSession (activeSessionId st)
        (\<lambda>s. s\<lparr>state := GENERATING_QUIZ, error := ErrNull\<rparr>) now st = Some st'"
    by (auto simp: handleGenerateQuiz_begin_def split: option.splits)
  then show ?thesis
  proof
    assume "sessions st' = sessions st"
    then show ?thesis using mem by simp
  next
    assume upd: "updateActiveSession (activeSessionId st)
        (\<lambda>s. s\<lparr>state := GENERATING_QUIZ, error := ErrNull\<rparr>) now st = Some st'"
    from gated_update_sessions [OF upd mem, of CONFIGURING_QUIZ] mainView_state(1) view
    have "s' \<in> set (map snd (sessions st))
       \<or> (\<exists>s \<in> set (map snd (sessions st)). state s = CONFIGURING_QUIZ
            \<and> s' = s\<lparr>state := GENERATING_QUIZ, error := ErrNull, lastAccessed := now\<rparr>)"
      by blast
    then show ?thesis using GenerateClicked session_step.generation_requested by blast
  qed
next
  case (GenerateSettled aid reply clock now)
  then have waiting: "awaiting GENERATING_QUIZ aid st"
    and resume: "handleGenerateQuiz_resume (Some aid) (generateQuiz reply clock) now st = Some st'"
    using assms(1) by (simp_all split: if_splits)
  show ?thesis
  proof (cases "generateQuiz reply clock")
    case (Inl err)
    then have upd: "updateActiveSession (Some aid)
        (\<lambda>s. s\<lparr>error := ErrMsg (errorMessage err), state := ERROR\<rparr>) now st = Some st'"
      using resume by (simp add: handleGenerateQuiz_resume_def failSession_def)
    from settled_update_sessions [OF upd mem waiting]
    show ?thesis using GenerateSettled session_step.generation_failed by blast
  next
    case (Inr qs)
    show ?thesis
    proof (cases "qs = []")
      case True
      then have upd: "updateActiveSession (Some aid)
          (\<lambda>s. s\<lparr>error := ErrMsg (errorMessage (ErrorObject msg_no_questions)), state := ERROR\<rparr>)
          now st = Some st'"
        using resume Inr by (simp add: handleGenerateQuiz_resume_def failSession_def)
      from settled_update_sessions [OF upd mem waiting]
      show ?thesis using GenerateSettled session_step.generation_failed by blast
    next
      case False
      then have upd: "updateActiveSession (Some aid)
          (\<lambda>s. s\<lparr>questions := qs, userAnswers := [], correction := None, state := TAKING_QUIZ\<rparr>)
          now st = Some st'"
        using resume Inr by (simp add: handleGenerateQuiz_resume_def)
      from settled_update_sessions [OF upd mem waiting]
      show ?thesis
        using GenerateSettled session_step.generation_succeeded [OF _ Inr False] by blast
    qed
  qed
next
  case (OptionClicked qIndex oIndex now)
  then obtain a q opt m where view: "mainView st = Quiz" and a: "activeSession st = Some a"
    and h: "handleAnswerChange q opt m now st = Some st'"
    using assms(1) by (auto simp: Let_def split: option.splits if_splits)
  then have upd: "updateActiveSession (activeSessionId st)
      (\<lambda>s. s\<lparr>userAnswers :=
         AList.update q (toggleAnswers (answersOf (userAnswers a) q) opt m) (userAnswers a)\<rparr>)
      now st = Some st'"
    by (simp add: handleAnswerChange_def Let_def)
  from gated_update_sessions [OF upd mem, of TAKING_QUIZ] mainView_state(2) view
  have "s' \<in> set (map snd (sessions st))
     \<or> (\<exists>s \<in> set (map snd (sessions st)). state s = TAKING_QUIZ
          \<and> s' = s\<lparr>userAnswers :=
                AList.update q (toggleAnswers (answersOf (userAnswers a) q) opt m) (userAnswers a),
              lastAccessed := now\<rparr>)"
    by blast
  then show ?thesis using OptionClicked session_step.option_clicked by blast
next
  case (SubmitClicked now)
  then have view: "mainView st = Quiz" and "isQuizAnswered st"
    and "handleSubmitQuiz_begin now st = Some st'"
    using assms(1) by (simp_all split: if_splits)
  then have "sessions st' = sessions st \<or> updateActiveSession (activeSessionId st)
        (\<lambda>s. s\<lparr>state := SUBMITTING_QUIZ, error := ErrNull\<rparr>) now st = Some st'"
    by (auto simp: handleSubmitQuiz_begin_def split: if_splits)
  then show ?thesis
  proof
    assume "sessions st' = sessions st"
    then show ?thesis using mem by simp
  next
    assume upd: "updateActiveSession (activeSessionId st)
        (\<lambda>s. s\<lparr>state := SUBMITTING_QUIZ, error := ErrNull\<rparr>) now st = Some st'"
    from gated_update_sessions [OF upd mem, of TAKING_QUIZ] mainView_state(2) view
    have "s' \<in> set (map snd (sessions st))
       \<or> (\<exists>s \<in> set (map snd (sessions st)). state s = TAKING_QUIZ
            \<and> s' = s\<lparr>state := SUBMITTING_QUIZ, error := ErrNull, lastAccessed := now\<rparr>)"
      by blast
    then show ?thesis using SubmitClicked session_step.submission_requested by blast
  qed
next
  case (SubmitSettled aid reply now)
  then have waiting: "awaiting SUBMITTING_QUIZ aid st"
    and resume: "handleSubmitQuiz_resume (Some aid) (correctAndReviewQuiz reply) now st = Some st'"
    using assms(1) by (simp_all split: if_splits)
  show ?thesis
  proof (cases "correctAndReviewQuiz reply")
    case (Inl err)
    then have upd: "updateActiveSession (Some aid)
        (\<lambda>s. s\<lparr>error := ErrMsg (errorMessage err), state := ERROR\<rparr>) now st = Some st'"
      using resume by (simp add: handleSubmitQuiz_resume_def failSession_def)
    from settled_update_sessions [OF upd mem waiting]
    show ?thesis using SubmitSettled session_step.grading_failed by blast
  next
    case (Inr r)
    then have upd: "updateActiveSession (Some aid)
        (\<lambda>s. s\<lparr>correction := Some r, weakTopics := Some (c_weakTopics r),
                state := REVIEWING_QUIZ\<rparr>) now st = Some st'"
      using resume by (simp add: handleSubmitQuiz_resume_def)
    from settled_update_sessions [OF upd mem waiting]
    show ?thesis using SubmitSettled session_step.grading_succeeded [OF _ Inr] by blast
  qed
next
  case (NewQuizClicked confirmed now)
  then have "resetSession True confirmed now st = Some st'"
    using assms(1) by (simp split: if_splits)
  then show ?thesis using mem resetSession_newFile_sessions by blast
next
  case (ImproveClicked now)
  then have view: "mainView st = Review"
    and upd: "updateActiveSession (activeSessionId st)
        (\<lambda>s. s\<lparr>state := CONFIGURING_QUIZ, questions := [], userAnswers := [],
                correction := None, error := ErrNull\<rparr>) now st = Some st'"
    using assms(1) by (simp_all add: onImproveClick_def split: if_splits)
  from gated_update_sessions [OF upd mem, of REVIEWING_QUIZ] mainView_state(3) view
  have "s' \<in> set (map snd (sessions st))
     \<or> (\<exists>s \<in> set (map snd (sessions st)). state s = REVIEWING_QUIZ
          \<and> s' = s\<lparr>state := CONFIGURING_QUIZ, questions := [], userAnswers := [],
                correction := None, error := ErrNull, lastAccessed := now\<rparr>)"
    by blast
  then show ?thesis using ImproveClicked session_step.improve_clicked by blast
next
  case (RecommencerClicked now)
  then have view: "mainView st = ErrorView"
    and upd: "updateActiveSession (activeSessionId st)
        (\<lambda>s. s\<lparr>state := CONFIGURING_QUIZ, error := ErrNull\<rparr>) now st = Some st'"
    using assms(1) by (simp_all add: onRecommencerClick_def split: if_splits)
  from gated_update_sessions [OF upd mem, of ERROR] mainView_state(4) view
  have "s' \<in> set (map snd (sessions st))
     \<or> (\<exists>s \<in> set (map snd (sessions st)). state s = ERROR
          \<and> s' = s\<lparr>state := CONFIGURING_QUIZ, error := ErrNull, lastAccessed := now\<rparr>)"
    by blast
  then show ?thesis using RecommencerClicked session_step.error_acknowledged by blast
qed


lemma fire_everySession:
  assumes "fire e st = Some st'" and "everySession P st"
    and fresh: "\<And>s. freshSession s \<Longrightarrow> P s"
    and step: "\<And>s s'. session_step e s s' \<Longrightarrow> P s \<Longrightarrow> P s'"
  shows "everySession P st'"
  unfolding everySession_def
proof
  fix s'
  assume "s' \<in> set (map snd (sessions st'))"
  from fire_sessions [OF assms(1) this]
  consider "s' \<in> set (map snd (sessions st))" | "freshSession s'"
    | s where "s \<in> set (map snd (sessions st))" "session_step e s s'"
    by blast
  then show "P s'"
  proof cases
    case 1
    then show ?thesis using assms(2) by (auto simp: everySession_def)
  next
    case 2
    then show ?thesis by (rule fresh)
  next
    case 3
    have "P s" using assms(2) 3(1) by (auto simp: everySession_def)
    with 3(2) show ?thesis by (rule step)
  qed
qed

lemma run_everySession:
  assumes "run evs st = Some st'" and "everySession P st" and "list_all allowed evs"
    and fresh: "\<And>s. freshSession s \<Longrightarrow> P s"
    and step: "\<And>e s s'. allowed e \<Longrightarrow> session_step e s s' \<Longrightarrow> P s \<Longrightarrow> P s'"
  shows "everySession P st'"
  using assms(1-3)
proof (induction evs arbitrary: st)
  case Nil
  then show ?case by simp
next
  case (Cons e evs)
  from Cons.prems(1) obtain mid where mid: "fire e st = Some mid"
    and rest: "run evs mid = Some st'"
    by (auto split: option.splits)
  have now: "allowed e" and later: "list_all allowed evs"
    using Cons.prems(3) by simp_all
  have "everySession P mid"
    using mid Cons.prems(2) fresh step [OF now] by (rule fire_everySession)
  with rest show ?case using later by (rule Cons.IH)
qed

lemma step_correctionOnlyInReview:
  "session_step e s s' \<Longrightarrow> correctionOnlyInReview s \<Longrightarrow> correctionOnlyInReview s'"
  by (cases rule: session_step.cases) (auto simp: correctionOnlyInReview_def)

lemma step_noStaleError:
  "session_step e s s' \<Longrightarrow> noStaleError s \<Longrightarrow> noStaleError s'"
  by (cases rule: session_step.cases) (auto simp: noStaleError_def)

lemma fresh_invariants:
  assumes "freshSession s"
  shows "correctionOnlyInReview s" and "noStaleError s" and "emptyWhileConfiguring s"
    and "neverGenerated s" and "correction s = None"
  using assms
  by (simp_all add: freshSession_def correctionOnlyInReview_def noStaleError_def
        emptyWhileConfiguring_def neverGenerated_def)

lemma list_all_True: "list_all (\<lambda>e. True) evs"
  by (simp add: list_all_iff)

lemma everySession_startApp: "everySession P startApp"
  by (simp add: everySession_def startApp_def)

subsection \<open>The store with what deleted sessions leave\<close>

lemma view_state:
  assumes "activeSession st = Some s"
  shows "mainView st = QuizConfig \<Longrightarrow> state s = CONFIGURING_QUIZ"
    and "mainView st = Quiz \<Longrightarrow> state s = TAKING_QUIZ"
    and "mainView st = Review \<Longrightarrow> state s = REVIEWING_QUIZ"
    and "mainView st = ErrorView \<Longrightarrow> state s = ERROR"
  using assms
  by (auto simp: mainView_def renderActiveSession_def activeSession_def
           split: if_splits SessionState.splits option.splits)

lemma gated_update_step:
  assumes fired: "updateActiveSession (activeSessionId (app pg)) upd now (app pg) = Some st'"
    and pg': "pg' = pg\<lparr>app := st'\<rparr>"
    and nc: "\<forall>j. \<not> creates j e"
    and tg: "target e (app pg) = activeSessionId (app pg)"
    and step: "\<And>s. activeSession (app pg) = Some s \<Longrightarrow>
       session_step e s ((upd s)\<lparr>lastAccessed := now\<rparr>)"
  shows "store_step e pg pg'"
proof (cases "activeSessionId (app pg)")
  case None
  then have "st' = app pg" using fired by (simp add: updateActiveSession_def)
  then have "pg' = pg" using pg' by simp
  then show ?thesis using nc by (simp add: store_step.kept)
next
  case (Some aid)
  show ?thesis
  proof (cases "aid = []")
    case True
    then have "st' = app pg" using fired Some by (simp add: updateActiveSession_def)
    then have "pg' = pg" using pg' by simp
    then show ?thesis using nc by (simp add: store_step.kept)
  next
    case False
    show ?thesis
    proof (cases "map_of (sessions (app pg)) aid")
      case None
      then show ?thesis using fired Some False by (simp add: updateActiveSession_def)
    next
      case (Some s)
      let ?v = "(upd s)\<lparr>lastAccessed := now\<rparr>"
      have st': "st' = (app pg)\<lparr>sessions := AList.update aid ?v (sessions (app pg))\<rparr>"
        using fired Some \<open>activeSessionId (app pg) = Some aid\<close> False
        by (simp add: updateActiveSession_def)
      have active: "activeSession (app pg) = Some s"
        using Some \<open>activeSessionId (app pg) = Some aid\<close> False by (simp add: activeSession_def)
      have a: "target e (app pg) = Some aid"
        using tg \<open>activeSessionId (app pg) = Some aid\<close> by simp
      have b: "session_step e s ?v" using active by (rule step)
      have c: "sessions (app pg') = AList.update aid ?v (sessions (app pg))"
        and d: "activeSessionId (app pg') = activeSessionId (app pg)"
        and f: "leftovers pg' = leftovers pg" and g: "orphans pg' = orphans pg"
        using st' pg' by simp_all
      from nc False Some a b c d f g show ?thesis by (rule store_step.updated)
    qed
  qed
qed

lemma settled_update_step:
  assumes fired: "updateActiveSession (Some aid) upd now (app pg) = Some st'"
    and pg': "pg' = pg\<lparr>app := st'\<rparr>"
    and nc: "\<forall>j. \<not> creates j e"
    and tg: "target e (app pg) = Some aid"
    and stored: "map_of (sessions (app pg)) aid = Some s" and named: "aid \<noteq> []"
    and step: "session_step e s ((upd s)\<lparr>lastAccessed := now\<rparr>)"
  shows "store_step e pg pg'"
proof -
  let ?v = "(upd s)\<lparr>lastAccessed := now\<rparr>"
  have st': "st' = (app pg)\<lparr>sessions := AList.update aid ?v (sessions (app pg))\<rparr>"
    using fired stored named by (simp add: updateActiveSession_def)
  have c: "sessions (app pg') = AList.update aid ?v (sessions (app pg))"
    and d: "activeSessionId (app pg') = activeSessionId (app pg)"
    and f: "leftovers pg' = leftovers pg" and g: "orphans pg' = orphans pg"
    using st' pg' by simp_all
  from nc named stored tg step c d f g show ?thesis by (rule store_step.updated)
qed

lemma reset_step:
  assumes fired: "inApp (forgetLeftover (activeSessionId (app pg)) confirmed pg)
       (resetSession True confirmed now (app pg)) = Some pg'"
    and nc: "\<forall>j. \<not> creates j e"
  shows "store_step e pg pg'"
proof (cases "activeSessionId (app pg)")
  case None
  then have "pg' = pg"
    using fired by (simp add: inApp_def resetSession_def forgetLeftover_def)
  then show ?thesis using nc by (simp add: store_step.kept)
next
  case (Some aid)
  show ?thesis
  proof (cases "aid = []")
    case True
    then have "pg' = pg"
      using fired Some by (simp add: inApp_def resetSession_def forgetLeftover_def)
    then show ?thesis using nc by (simp add: store_step.kept)
  next
    case False
    show ?thesis
    proof (cases confirmed)
      case False
      then have "pg' = pg\<lparr>app := (app pg)\<lparr>activeSessionId := None\<rparr>\<rparr>"
        using fired Some \<open>aid \<noteq> []\<close>
        by (simp add: inApp_def resetSession_def forgetLeftover_def handleDeleteSession_def)
      then have "sessions (app pg') = sessions (app pg)" "leftovers pg' = leftovers pg"
        "orphans pg' = orphans pg" "activeSessionId (app pg') = None"
        by simp_all
      then show ?thesis using nc by (simp add: store_step.kept)
    next
      case True
      then have "pg' = pg\<lparr>leftovers := AList.delete aid (leftovers pg),
           app := (app pg)\<lparr>sessions := AList.delete aid (sessions (app pg)),
                            activeSessionId := None\<rparr>\<rparr>"
        using fired Some \<open>aid \<noteq> []\<close>
        by (simp add: inApp_def resetSession_def forgetLeftover_def handleDeleteSession_def)
      then have a: "sessions (app pg') = AList.delete aid (sessions (app pg))"
        and b: "leftovers pg' = AList.delete aid (leftovers pg)"
        and c: "orphans pg' = orphans pg
           \<or> (\<exists>p. map_of (sessions (app pg)) aid \<noteq> None
                 \<and> orphans pg' = AList.update aid p (orphans pg))"
        and d: "activeSessionId (app pg') = None
           \<or> (activeSessionId (app pg') = activeSessionId (app pg)
                \<and> activeSessionId (app pg) \<noteq> Some aid)"
        by simp_all
      from nc a b c d show ?thesis by (rule store_step.deleted)
    qed
  qed
qed

lemma page_fire_store:
  assumes "page_fire e pg = Some pg'"
  shows "store_step e pg pg'"
proof (cases e)
  case (FileChosen f idNow accessNow)
  show ?thesis
  proof (cases f)
    case (Readable name body)
    let ?k = "''session-'' @ digits10 idNow"
    let ?new = "\<lparr>s_id = ''session-'' @ digits10 idNow, fileName = name, content = body,
        quizType = MIXED, numQuestions = Num 5, questions = [], userAnswers = [],
        correction = None, weakTopics = None, lastAccessed = accessNow,
        state = CONFIGURING_QUIZ, error = ErrUndefined\<rparr>"
    have a: "creates ?k e" and b: "\<forall>j. creates j e \<longrightarrow> j = ?k"
      using FileChosen Readable by (simp_all add: creates_def)
    have c: "s_id ?new = ?k" and d: "freshSession ?new"
      by (simp_all add: freshSession_def)
    have f: "sessions (app pg') = AList.update ?k ?new (sessions (app pg))"
      and g: "activeSessionId (app pg') = Some ?k"
      and h: "leftovers pg' = AList.delete ?k (leftovers pg)"
      and i: "orphans pg' = orphans pg"
      using assms FileChosen Readable by (auto simp: inApp_def Let_def split: if_splits)
    from a b c d f g h i show ?thesis by (rule store_step.created)
  next
    case NoFile
    then have "pg' = pg" using assms FileChosen by (auto simp: inApp_def split: if_splits)
    moreover have "\<forall>j. \<not> creates j e" using FileChosen NoFile by (simp add: creates_def)
    ultimately show ?thesis by (simp add: store_step.kept)
  next
    case (Unreadable name)
    then have "pg' = pg" using assms FileChosen by (auto simp: inApp_def split: if_splits)
    moreover have "\<forall>j. \<not> creates j e" using FileChosen Unreadable by (simp add: creates_def)
    ultimately show ?thesis by (simp add: store_step.kept)
  qed
next
  case (SessionClicked key)
  then have nc: "\<forall>j. \<not> creates j e" by (simp add: creates_def)
  show ?thesis
  proof (cases "map_of (sessions (app pg)) key")
    case None
    then have "pg' = pg\<lparr>app := (app pg)\<lparr>activeSessionId := None\<rparr>\<rparr>"
      using assms SessionClicked by (auto split: option.splits if_splits)
    then have "sessions (app pg') = sessions (app pg)" "leftovers pg' = leftovers pg"
      "orphans pg' = orphans pg" "activeSessionId (app pg') = None"
      by simp_all
    then show ?thesis using nc by (simp add: store_step.kept)
  next
    case (Some session)
    then have "pg' = pg\<lparr>app := (app pg)\<lparr>activeSessionId := Some (s_id session)\<rparr>\<rparr>"
      using assms SessionClicked by (auto simp: inApp_def split: option.splits if_splits)
    then have a: "sessions (app pg') = sessions (app pg)" and b: "leftovers pg' = leftovers pg"
      and c: "orphans pg' = orphans pg"
      and d: "activeSessionId (app pg') = Some (s_id session)"
      by simp_all
    have "activeSessionId (app pg') = activeSessionId (app pg)
       \<or> activeSessionId (app pg') = None
       \<or> (\<exists>key s. map_of (sessions (app pg)) key = Some s
             \<and> activeSessionId (app pg') = Some (s_id s))"
      using Some d by blast
    with nc a b c show ?thesis by (rule store_step.kept)
  qed
next
  case BackClicked
  then have nc: "\<forall>j. \<not> creates j e" by (simp add: creates_def)
  have "pg' = pg\<lparr>app := (app pg)\<lparr>activeSessionId := None\<rparr>\<rparr>"
    using assms BackClicked by (auto simp: inApp_def split: option.splits if_splits)
  then have "sessions (app pg') = sessions (app pg)" "leftovers pg' = leftovers pg"
    "orphans pg' = orphans pg" "activeSessionId (app pg') = None"
    by simp_all
  then show ?thesis using nc by (simp add: store_step.kept)
next
  case (DeleteClicked key confirmed)
  then have nc: "\<forall>j. \<not> creates j e" by (simp add: creates_def)
  obtain sid where pg': "pg' = deleteAt sid confirmed pg"
    using assms DeleteClicked by (auto split: option.splits if_splits)
  show ?thesis
  proof (cases confirmed)
    case False
    then have "pg' = pg" using pg' by (simp add: deleteAt_def)
    then show ?thesis using nc by (simp add: store_step.kept)
  next
    case True
    have a: "sessions (app pg') = AList.delete sid (sessions (app pg))"
      and b: "leftovers pg' = AList.delete sid (leftovers pg)"
      using pg' True by (simp_all add: deleteAt_def handleDeleteSession_def)
    have c: "orphans pg' = orphans pg
       \<or> (\<exists>p. map_of (sessions (app pg)) sid \<noteq> None
             \<and> orphans pg' = AList.update sid p (orphans pg))"
      using pg' True by (auto simp: deleteAt_def split: option.splits)
    have d: "activeSessionId (app pg') = None
       \<or> (activeSessionId (app pg') = activeSessionId (app pg)
            \<and> activeSessionId (app pg) \<noteq> Some sid)"
      using pg' True by (simp add: deleteAt_def handleDeleteSession_def)
    from nc a b c d show ?thesis by (rule store_step.deleted)
  qed
next
  case (NumQuestionsTyped v now)
  then have nc: "\<forall>j. \<not> creates j e" and tg: "target e (app pg) = activeSessionId (app pg)"
    by (simp_all add: creates_def target_def)
  obtain st' where view: "mainView (app pg) = QuizConfig"
    and upd: "updateActiveSession (activeSessionId (app pg))
        (\<lambda>s. s\<lparr>numQuestions := Math_max (Num 1) (parseInt10 v)\<rparr>) now (app pg) = Some st'"
    and pg': "pg' = pg\<lparr>app := st'\<rparr>"
    using assms NumQuestionsTyped
    by (auto simp: inApp_def onNumQuestionsChange_def split: option.splits if_splits)
  show ?thesis using upd pg' nc tg
  proof (rule gated_update_step)
    fix s assume "activeSession (app pg) = Some s"
    then have "state s = CONFIGURING_QUIZ" using view by (rule view_state(1))
    then show "session_step e s
        (s\<lparr>numQuestions := Math_max (Num 1) (parseInt10 v), lastAccessed := now\<rparr>)"
      unfolding NumQuestionsTyped by (rule session_step.count_typed)
  qed
next
  case (QuizTypeClicked t now)
  then have nc: "\<forall>j. \<not> creates j e" and tg: "target e (app pg) = activeSessionId (app pg)"
    by (simp_all add: creates_def target_def)
  obtain st' where view: "mainView (app pg) = QuizConfig"
    and upd: "updateActiveSession (activeSessionId (app pg))
        (\<lambda>s. s\<lparr>quizType := t\<rparr>) now (app pg) = Some st'"
    and pg': "pg' = pg\<lparr>app := st'\<rparr>"
    using assms QuizTypeClicked
    by (auto simp: inApp_def onQuizTypeClick_def split: option.splits if_splits)
  show ?thesis using upd pg' nc tg
  proof (rule gated_update_step)
    fix s assume "activeSession (app pg) = Some s"
    then have "state s = CONFIGURING_QUIZ" using view by (rule view_state(1))
    then show "session_step e s (s\<lparr>quizType := t, lastAccessed := now\<rparr>)"
      unfolding QuizTypeClicked by (rule session_step.type_clicked)
  qed
next
  case (ChangeFileClicked confirmed now)
  then have nc: "\<forall>j. \<not> creates j e" by (simp add: creates_def)
  have "inApp (forgetLeftover (activeSessionId (app pg)) confirmed pg)
       (resetSession True confirmed now (app pg)) = Some pg'"
    using assms ChangeFileClicked by (auto simp: inApp_def split: if_splits)
  then show ?thesis using nc by (rule reset_step)
next
  case (GenerateClicked now)
  then have nc: "\<forall>j. \<not> creates j e" and tg: "target e (app pg) = activeSessionId (app pg)"
    by (simp_all add: creates_def target_def)
  obtain st' where view: "mainView (app pg) = QuizConfig"
    and started: "handleGenerateQuiz_begin now (app pg) = Some st'"
    and pg': "pg' = pg\<lparr>app := st'\<rparr>"
    using assms GenerateClicked by (auto simp: inApp_def split: option.splits if_splits)
  show ?thesis
  proof (cases "activeSession (app pg)")
    case None
    then have "pg' = pg" using started pg' by (simp add: handleGenerateQuiz_begin_def)
    then show ?thesis using nc by (simp add: store_step.kept)
  next
    case (Some a)
    then have upd: "updateActiveSession (activeSessionId (app pg))
        (\<lambda>s. s\<lparr>state := GENERATING_QUIZ, error := ErrNull\<rparr>) now (app pg) = Some st'"
      using started by (simp add: handleGenerateQuiz_begin_def)
    show ?thesis using upd pg' nc tg
    proof (rule gated_update_step)
      fix s assume "activeSession (app pg) = Some s"
      then have "state s = CONFIGURING_QUIZ" using view by (rule view_state(1))
      then show "session_step e s
          (s\<lparr>state := GENERATING_QUIZ, error := ErrNull, lastAccessed := now\<rparr>)"
        unfolding GenerateClicked by (rule session_step.generation_requested)
    qed
  qed
next
  case (GenerateSettled aid reply clock now)
  then have nc: "\<forall>j. \<not> creates j e" and tg: "target e (app pg) = Some aid"
    by (simp_all add: creates_def target_def)
  show ?thesis
  proof (cases "map_of (sessions (app pg)) aid")
    case None
    then have "pg' = pg\<lparr>leftovers :=
          AList.update aid (generateLeftover (generateQuiz reply clock) now) (leftovers pg),
        orphans := AList.delete aid (orphans pg)\<rparr>"
      using assms GenerateSettled by (auto split: if_splits)
    then have a: "sessions (app pg') = sessions (app pg)"
      and b: "activeSessionId (app pg') = activeSessionId (app pg)"
      and c: "leftovers pg' =
          AList.update aid (generateLeftover (generateQuiz reply clock) now) (leftovers pg)"
      and d: "orphans pg' = AList.delete aid (orphans pg)"
      by simp_all
    from nc None a b c d show ?thesis by (rule store_step.leftover_written)
  next
    case (Some s)
    then obtain st' where waiting: "awaiting GENERATING_QUIZ aid (app pg)"
      and resume: "handleGenerateQuiz_resume (Some aid) (generateQuiz reply clock) now (app pg)
          = Some st'"
      and pg': "pg' = pg\<lparr>app := st'\<rparr>"
      using assms GenerateSettled by (auto simp: inApp_def split: option.splits if_splits)
    have named: "aid \<noteq> []" and phase: "state s = GENERATING_QUIZ"
      using waiting Some by (simp_all add: awaiting_def)
    show ?thesis
    proof (cases "generateQuiz reply clock")
      case (Inl err)
      then have upd: "updateActiveSession (Some aid)
          (\<lambda>s. s\<lparr>error := ErrMsg (errorMessage err), state := ERROR\<rparr>) now (app pg) = Some st'"
        using resume by (simp add: handleGenerateQuiz_resume_def failSession_def)
      have "session_step e s
          (s\<lparr>error := ErrMsg (errorMessage err), state := ERROR, lastAccessed := now\<rparr>)"
        unfolding GenerateSettled using phase by (rule session_step.generation_failed)
      with upd pg' nc tg Some named show ?thesis by (rule settled_update_step)
    next
      case (Inr qs)
      show ?thesis
      proof (cases "qs = []")
        case True
        then have upd: "updateActiveSession (Some aid)
            (\<lambda>s. s\<lparr>error := ErrMsg (errorMessage (ErrorObject msg_no_questions)),
                    state := ERROR\<rparr>) now (app pg) = Some st'"
          using resume Inr by (simp add: handleGenerateQuiz_resume_def failSession_def)
        have "session_step e s
            (s\<lparr>error := ErrMsg (errorMessage (ErrorObject msg_no_questions)), state := ERROR,
               lastAccessed := now\<rparr>)"
          unfolding GenerateSettled using phase by (rule session_step.generation_failed)
        with upd pg' nc tg Some named show ?thesis by (rule settled_update_step)
      next
        case False
        then have upd: "updateActiveSession (Some aid)
            (\<lambda>s. s\<lparr>questions := qs, userAnswers := [], correction := None,
                    state := TAKING_QUIZ\<rparr>) now (app pg) = Some st'"
          using resume Inr by (simp add: handleGenerateQuiz_resume_def)
        have "session_step e s
            (s\<lparr>questions := qs, userAnswers := [], correction := None, state := TAKING_QUIZ,
               lastAccessed := now\<rparr>)"
          unfolding GenerateSettled using phase Inr False
          by (rule session_step.generation_succeeded)
        with upd pg' nc tg Some named show ?thesis by (rule settled_update_step)
      qed
    qed
  qed
next
  case (OptionClicked qIndex oIndex now)
  then have nc: "\<forall>j. \<not> creates j e" and tg: "target e (app pg) = activeSessionId (app pg)"
    by (simp_all add: creates_def target_def)
  obtain st' a q opt m where view: "mainView (app pg) = Quiz"
    and a: "activeSession (app pg) = Some a"
    and h: "handleAnswerChange q opt m now (app pg) = Some st'"
    and pg': "pg' = pg\<lparr>app := st'\<rparr>"
    using assms OptionClicked
    by (auto simp: inApp_def Let_def split: option.splits if_splits)
  then have upd: "updateActiveSession (activeSessionId (app pg))
      (\<lambda>s. s\<lparr>userAnswers :=
         AList.update q (toggleAnswers (answersOf (userAnswers a) q) opt m) (userAnswers a)\<rparr>)
      now (app pg) = Some st'"
    by (simp add: handleAnswerChange_def Let_def)
  show ?thesis using upd pg' nc tg
  proof (rule gated_update_step)
    fix s assume "activeSession (app pg) = Some s"
    then have "state s = TAKING_QUIZ" using view by (rule view_state(2))
    then show "session_step e s
        (s\<lparr>userAnswers :=
             AList.update q (toggleAnswers (answersOf (userAnswers a) q) opt m) (userAnswers a),
           lastAccessed := now\<rparr>)"
      unfolding OptionClicked by (rule session_step.option_clicked)
  qed
next
  case (SubmitClicked now)
  then have nc: "\<forall>j. \<not> creates j e" and tg: "target e (app pg) = activeSessionId (app pg)"
    by (simp_all add: creates_def target_def)
  obtain st' where view: "mainView (app pg) = Quiz"
    and started: "handleSubmitQuiz_begin now (app pg) = Some st'"
    and pg': "pg' = pg\<lparr>app := st'\<rparr>"
    using assms SubmitClicked by (auto simp: inApp_def split: option.splits if_splits)
  show ?thesis
  proof (cases "\<not> isQuizAnswered (app pg) \<or> activeSession (app pg) = None")
    case True
    then have "pg' = pg" using started pg' by (auto simp: handleSubmitQuiz_begin_def)
    then show ?thesis using nc by (simp add: store_step.kept)
  next
    case False
    then have upd: "updateActiveSession (activeSessionId (app pg))
        (\<lambda>s. s\<lparr>state := SUBMITTING_QUIZ, error := ErrNull\<rparr>) now (app pg) = Some st'"
      using started by (auto simp: handleSubmitQuiz_begin_def)
    show ?thesis using upd pg' nc tg
    proof (rule gated_update_step)
      fix s assume "activeSession (app pg) = Some s"
      then have "state s = TAKING_QUIZ" using view by (rule view_state(2))
      then show "session_step e s
          (s\<lparr>state := SUBMITTING_QUIZ, error := ErrNull, lastAccessed := now\<rparr>)"
        unfolding SubmitClicked by (rule session_step.submission_requested)
    qed
  qed
next
  case (SubmitSettled aid reply now)
  then have nc: "\<forall>j. \<not> creates j e" and tg: "target e (app pg) = Some aid"
    by (simp_all add: creates_def target_def)
  show ?thesis
  proof (cases "map_of (sessions (app pg)) aid")
    case None
    then have "pg' = pg\<lparr>leftovers :=
          AList.update aid (submitLeftover (correctAndReviewQuiz reply) now) (leftovers pg),
        orphans := AList.delete aid (orphans pg)\<rparr>"
      using assms SubmitSettled by (auto split: if_splits)
    then have a: "sessions (app pg') = sessions (app pg)"
      and b: "activeSessionId (app pg') = activeSessionId (app pg)"
      and c: "leftovers pg' =
          AList.update aid (submitLeftover (correctAndReviewQuiz reply) now) (leftovers pg)"
      and d: "orphans pg' = AList.delete aid (orphans pg)"
      by simp_all
    from nc None a b c d show ?thesis by (rule store_step.leftover_written)
  next
    case (Some s)
    then obtain st' where waiting: "awaiting SUBMITTING_QUIZ aid (app pg)"
      and resume: "handleSubmitQuiz_resume (Some aid) (correctAndReviewQuiz reply) now (app pg)
          = Some st'"
      and pg': "pg' = pg\<lparr>app := st'\<rparr>"
      using assms SubmitSettled by (auto simp: inApp_def split: option.splits if_splits)
    have named: "aid \<noteq> []" and phase: "state s = SUBMITTING_QUIZ"
      using waiting Some by (simp_all add: awaiting_def)
    show ?thesis
    proof (cases "correctAndReviewQuiz reply")
      case (Inl err)
      then have upd: "updateActiveSession (Some aid)
          (\<lambda>s. s\<lparr>error := ErrMsg (errorMessage err), state := ERROR\<rparr>) now (app pg) = Some st'"
        using resume by (simp add: handleSubmitQuiz_resume_def failSession_def)
      have "session_step e s
          (s\<lparr>error := ErrMsg (errorMessage err), state := ERROR, lastAccessed := now\<rparr>)"
        unfolding SubmitSettled using phase by (rule session_step.grading_failed)
      with upd pg' nc tg Some named show ?thesis by (rule settled_update_step)
    next
      case (Inr r)
      then have upd: "updateActiveSession (Some aid)
          (\<lambda>s. s\<lparr>correction := Some r, weakTopics := Some (c_weakTopics r),
                  state := REVIEWING_QUIZ\<rparr>) now (app pg) = Some st'"
        using resume by (simp add: handleSubmitQuiz_resume_def)
      have "session_step e s
          (s\<lparr>correction := Some r, weakTopics := Some (c_weakTopics r),
             state := REVIEWING_QUIZ, lastAccessed := now\<rparr>)"
        unfolding SubmitSettled using phase Inr by (rule session_step.grading_succeeded)
      with upd pg' nc tg Some named show ?thesis by (rule settled_update_step)
    qed
  qed
next
  case (NewQuizClicked confirmed now)
  then have nc: "\<forall>j. \<not> creates j e" by (simp add: creates_def)
  have "inApp (forgetLeftover (activeSessionId (app pg)) confirmed pg)
       (resetSession True confirmed now (app pg)) = Some pg'"
    using assms NewQuizClicked by (auto simp: inApp_def split: if_splits)
  then show ?thesis using nc by (rule reset_step)
next
  case (ImproveClicked now)
  then have nc: "\<forall>j. \<not> creates j e" and tg: "target e (app pg) = activeSessionId (app pg)"
    by (simp_all add: creates_def target_def)
  obtain st' where view: "mainView (app pg) = Review"
    and upd: "updateActiveSession (activeSessionId (app pg))
        (\<lambda>s. s\<lparr>state := CONFIGURING_QUIZ, questions := [], userAnswers := [],
                correction := None, error := ErrNull\<rparr>) now (app pg) = Some st'"
    and pg': "pg' = pg\<lparr>app := st'\<rparr>"
    using assms ImproveClicked
    by (auto simp: inApp_def onImproveClick_def split: option.splits if_splits)
  show ?thesis using upd pg' nc tg
  proof (rule gated_update_step)
    fix s assume "activeSession (app pg) = Some s"
    then have "state s = REVIEWING_QUIZ" using view by (rule view_state(3))
    then show "session_step e s
        (s\<lparr>state := CONFIGURING_QUIZ, questions := [], userAnswers := [],
           correction := None, error := ErrNull, lastAccessed := now\<rparr>)"
      unfolding ImproveClicked by (rule session_step.improve_clicked)
  qed
next
  case (RecommencerClicked now)
  then have nc: "\<forall>j. \<not> creates j e" and tg: "target e (app pg) = activeSessionId (app pg)"
    by (simp_all add: creates_def target_def)
  obtain st' where view: "mainView (app pg) = ErrorView"
    and upd: "updateActiveSession (activeSessionId (app pg))
        (\<lambda>s. s\<lparr>state := CONFIGURING_QUIZ, error := ErrNull\<rparr>) now (app pg) = Some st'"
    and pg': "pg' = pg\<lparr>app := st'\<rparr>"
    using assms RecommencerClicked
    by (auto simp: inApp_def onRecommencerClick_def split: option.splits if_splits)
  show ?thesis using upd pg' nc tg
  proof (rule gated_update_step)
    fix s assume "activeSession (app pg) = Some s"
    then have "state s = ERROR" using view by (rule view_state(4))
    then show "session_step e s
        (s\<lparr>state := CONFIGURING_QUIZ, error := ErrNull, lastAccessed := now\<rparr>)"
      unfolding RecommencerClicked by (rule session_step.error_acknowledged)
  qed
qed


lemma store_step_lookup:
  assumes "store_step e pg pg'" and "map_of (sessions (app pg')) k = Some s'"
  shows "(creates k e \<and> freshSession s' \<and> s_id s' = k)
     \<or> (\<not> creates k e
          \<and> (map_of (sessions (app pg)) k = Some s'
               \<or> (\<exists>s. map_of (sessions (app pg)) k = Some s \<and> k \<noteq> []
                     \<and> target e (app pg) = Some k \<and> session_step e s s')))"
  using assms(1)
proof (cases rule: store_step.cases)
  case (created j v)
  show ?thesis
  proof (cases "k = j")
    case True
    then have "s' = v" using assms(2) unfolding created(5) by (simp add: update_conv')
    then show ?thesis using True created(1,3,4) by simp
  next
    case False
    then have "map_of (sessions (app pg)) k = Some s'"
      using assms(2) unfolding created(5) by (simp add: update_conv')
    moreover have "\<not> creates k e" using created(2) False by blast
    ultimately show ?thesis by simp
  qed
next
  case kept
  then show ?thesis using assms(2) by simp
next
  case (deleted j)
  have "map_of (sessions (app pg)) k = Some s'"
    using assms(2) unfolding deleted(2) by (simp add: delete_conv' split: if_splits)
  then show ?thesis using deleted(1) by simp
next
  case (updated j s v)
  show ?thesis
  proof (cases "k = j")
    case True
    then have "s' = v" using assms(2) unfolding updated(6) by (simp add: update_conv')
    then show ?thesis using True updated(1-5) by blast
  next
    case False
    then have "map_of (sessions (app pg)) k = Some s'"
      using assms(2) unfolding updated(6) by (simp add: update_conv')
    then show ?thesis using updated(1) by simp
  qed
next
  case (leftover_written j l)
  then show ?thesis using assms(2) by simp
qed

lemma session_step_id: "session_step e s s' \<Longrightarrow> s_id s' = s_id s"
  by (cases rule: session_step.cases) auto

lemma keys_of: "(\<forall>(k, v) \<in> set al. Q k) \<longleftrightarrow> (\<forall>k. map_of al k \<noteq> None \<longrightarrow> Q k)"
proof -
  have "(\<exists>v. map_of al k = Some v) \<longleftrightarrow> k \<in> fst ` set al" for k
    using map_of_eq_None_iff [of al k] by auto
  then show ?thesis by force
qed

lemma entries_of:
  "distinct (map fst al) \<Longrightarrow>
   (\<forall>(k, v) \<in> set al. P k v) \<longleftrightarrow> (\<forall>k v. map_of al k = Some v \<longrightarrow> P k v)"
  by auto

lemma coherent_iff:
  "coherent pg \<longleftrightarrow>
     distinct (map fst (sessions (app pg)))
     \<and> (\<forall>k s. map_of (sessions (app pg)) k = Some s \<longrightarrow> s_id s = k)
     \<and> (\<forall>k. map_of (leftovers pg) k \<noteq> None \<longrightarrow> map_of (sessions (app pg)) k = None)
     \<and> (\<forall>k. map_of (orphans pg) k \<noteq> None \<longrightarrow> map_of (leftovers pg) k = None)
     \<and> (\<forall>a. activeSessionId (app pg) = Some a \<longrightarrow> map_of (sessions (app pg)) a \<noteq> None)"
proof -
  have L: "(\<forall>(k, l) \<in> set (leftovers pg). map_of (sessions (app pg)) k = None)
     \<longleftrightarrow> (\<forall>k. map_of (leftovers pg) k \<noteq> None \<longrightarrow> map_of (sessions (app pg)) k = None)"
    by (rule keys_of)
  have O: "(\<forall>(k, p) \<in> set (orphans pg). map_of (leftovers pg) k = None)
     \<longleftrightarrow> (\<forall>k. map_of (orphans pg) k \<noteq> None \<longrightarrow> map_of (leftovers pg) k = None)"
    by (rule keys_of)
  have A: "(case activeSessionId (app pg) of
           None \<Rightarrow> True
         | Some aid \<Rightarrow> map_of (sessions (app pg)) aid \<noteq> None)
     \<longleftrightarrow> (\<forall>a. activeSessionId (app pg) = Some a \<longrightarrow> map_of (sessions (app pg)) a \<noteq> None)"
    by (cases "activeSessionId (app pg)") simp_all
  show ?thesis
  proof (cases "distinct (map fst (sessions (app pg)))")
    case False
    then show ?thesis unfolding coherent_def by (simp only: simp_thms)
  next
    case True
    have S: "(\<forall>(k, s) \<in> set (sessions (app pg)). s_id s = k)
       \<longleftrightarrow> (\<forall>k s. map_of (sessions (app pg)) k = Some s \<longrightarrow> s_id s = k)"
      using True by (rule entries_of)
    show ?thesis unfolding coherent_def list_all_iff L O A S by (rule refl)
  qed
qed

lemma store_step_coherent:
  assumes "store_step e pg pg'" and "coherent pg"
  shows "coherent pg'"
proof -
  note c = assms(2) [unfolded coherent_iff]
  from c have d: "distinct (map fst (sessions (app pg)))"
    and i: "\<And>k s. map_of (sessions (app pg)) k = Some s \<Longrightarrow> s_id s = k"
    and l: "\<And>k. map_of (leftovers pg) k \<noteq> None \<Longrightarrow> map_of (sessions (app pg)) k = None"
    and o: "\<And>k. map_of (orphans pg) k \<noteq> None \<Longrightarrow> map_of (leftovers pg) k = None"
    and a: "\<And>a. activeSessionId (app pg) = Some a \<Longrightarrow> map_of (sessions (app pg)) a \<noteq> None"
    by blast+
  from assms(1) show ?thesis
  proof (cases rule: store_step.cases)
    case (created k v)
    have 1: "distinct (map fst (sessions (app pg')))"
      unfolding created(5) using d by (rule distinct_update)
    have 2: "s_id t = j" if "map_of (sessions (app pg')) j = Some t" for j t
      using that i created(3) unfolding created(5)
      by (auto simp: update_conv' split: if_splits)
    have 3: "map_of (sessions (app pg')) j = None" if "map_of (leftovers pg') j \<noteq> None" for j
      using that l unfolding created(5,7)
      by (auto simp: update_conv' delete_conv' split: if_splits)
    have 4: "map_of (leftovers pg') j = None" if "map_of (orphans pg') j \<noteq> None" for j
      using that o unfolding created(7,8)
      by (auto simp: delete_conv' split: if_splits)
    have 5: "map_of (sessions (app pg')) b \<noteq> None" if "activeSessionId (app pg') = Some b" for b
      using that unfolding created(5,6) by (simp add: update_conv')
    from 1 2 3 4 5 show ?thesis unfolding coherent_iff by blast
  next
    case kept
    have 5: "map_of (sessions (app pg)) b \<noteq> None" if "activeSessionId (app pg') = Some b" for b
    proof -
      from kept(5) that consider "activeSessionId (app pg) = Some b"
        | key t where "map_of (sessions (app pg)) key = Some t" "b = s_id t"
        by auto
      then show ?thesis
      proof cases
        case 1
        then show ?thesis by (rule a)
      next
        case 2
        then show ?thesis using i [OF 2(1)] by simp
      qed
    qed
    show ?thesis
      unfolding coherent_iff kept(2-4) using d i l o 5 by blast
  next
    case (deleted k)
    have 1: "distinct (map fst (sessions (app pg')))"
      unfolding deleted(2) using d by (rule distinct_delete)
    have 2: "s_id t = j" if "map_of (sessions (app pg')) j = Some t" for j t
      using that i unfolding deleted(2) by (auto simp: delete_conv' split: if_splits)
    have 3: "map_of (sessions (app pg')) j = None" if "map_of (leftovers pg') j \<noteq> None" for j
      using that l unfolding deleted(2,3) by (auto simp: delete_conv' split: if_splits)
    have 4: "map_of (leftovers pg') j = None" if "map_of (orphans pg') j \<noteq> None" for j
    proof (cases "j = k")
      case True
      then show ?thesis unfolding deleted(3) by (simp add: delete_conv')
    next
      case False
      then have "map_of (orphans pg) j \<noteq> None"
        using deleted(4) that by (auto simp: update_conv')
      then have "map_of (leftovers pg) j = None" by (rule o)
      then show ?thesis unfolding deleted(3) by (simp add: delete_conv')
    qed
    have 5: "map_of (sessions (app pg')) b \<noteq> None" if "activeSessionId (app pg') = Some b" for b
    proof -
      from deleted(5) that have "activeSessionId (app pg) = Some b" "b \<noteq> k" by auto
      then show ?thesis using a unfolding deleted(2) by (simp add: delete_conv')
    qed
    from 1 2 3 4 5 show ?thesis unfolding coherent_iff by blast
  next
    case (updated k s v)
    have v: "s_id v = k" using session_step_id [OF updated(5)] i [OF updated(3)] by simp
    have 1: "distinct (map fst (sessions (app pg')))"
      unfolding updated(6) using d by (rule distinct_update)
    have 2: "s_id t = j" if "map_of (sessions (app pg')) j = Some t" for j t
      using that i v unfolding updated(6) by (auto simp: update_conv' split: if_splits)
    have 3: "map_of (sessions (app pg')) j = None" if "map_of (leftovers pg') j \<noteq> None" for j
    proof -
      have "map_of (sessions (app pg)) j = None" using that l unfolding updated(8) by simp
      then show ?thesis using updated(3) unfolding updated(6)
        by (auto simp: update_conv' split: if_splits)
    qed
    have 4: "map_of (leftovers pg') j = None" if "map_of (orphans pg') j \<noteq> None" for j
      using that o unfolding updated(8,9) by simp
    have 5: "map_of (sessions (app pg')) b \<noteq> None" if "activeSessionId (app pg') = Some b" for b
      using that a unfolding updated(6,7) by (auto simp: update_conv' split: if_splits)
    from 1 2 3 4 5 show ?thesis unfolding coherent_iff by blast
  next
    case (leftover_written k l')
    have 3: "map_of (sessions (app pg)) j = None" if "map_of (leftovers pg') j \<noteq> None" for j
      using that l leftover_written(2) unfolding leftover_written(5)
      by (auto simp: update_conv' split: if_splits)
    have 4: "map_of (leftovers pg') j = None" if "map_of (orphans pg') j \<noteq> None" for j
    proof -
      have "j \<noteq> k" "map_of (orphans pg) j \<noteq> None"
        using that unfolding leftover_written(6) by (auto simp: delete_conv' split: if_splits)
      then show ?thesis using o unfolding leftover_written(5) by (simp add: update_conv')
    qed
    show ?thesis
      unfolding coherent_iff leftover_written(3,4) using d i a 3 4 by blast
  qed
qed

lemma coherent_startPage: "coherent startPage"
  by (simp add: coherent_def startPage_def startApp_def)

lemma page_run_coherent:
  assumes "page_run evs pg = Some pg'" and "coherent pg"
  shows "coherent pg'"
  using assms
proof (induction evs arbitrary: pg)
  case Nil
  then show ?case by simp
next
  case (Cons e evs)
  from Cons.prems(1) obtain mid where mid: "page_fire e pg = Some mid"
    and rest: "page_run evs mid = Some pg'"
    by (auto split: option.splits)
  have "coherent mid" using page_fire_store [OF mid] Cons.prems(2) by (rule store_step_coherent)
  with rest show ?case by (rule Cons.IH)
qed

lemma history_invariant:
  fixes tag :: "DocumentSession \<Rightarrow> 'x" and marks :: "'x \<Rightarrow> event \<Rightarrow> Page \<Rightarrow> bool"
    and seen :: "'x \<Rightarrow> bool"
  assumes "page_run evs pg = Some pg'"
    and "\<And>s. map_of (sessions (app pg)) k = Some s \<Longrightarrow> Good s \<or> seen (tag s)"
    and "map_of (sessions (app pg')) k = Some s'"
    and fresh: "\<And>s. freshSession s \<Longrightarrow> Good s"
    and step: "\<And>e p s s'. map_of (sessions (app p)) k = Some s \<Longrightarrow> k \<noteq> [] \<Longrightarrow>
       target e (app p) = Some k \<Longrightarrow> session_step e s s' \<Longrightarrow>
       Good s' \<or> marks (tag s') e p \<or> (tag s' = tag s \<and> (Good s \<longrightarrow> Good s'))"
  shows "Good s' \<or> happenedSince (creates k) (marks (tag s')) evs pg (seen (tag s'))"
  using assms(1-3)
proof (induction evs arbitrary: pg seen)
  case Nil
  then show ?case by simp
next
  case (Cons e evs)
  from Cons.prems(1) obtain mid where mid: "page_fire e pg = Some mid"
    and rest: "page_run evs mid = Some pg'"
    by (auto split: option.splits)
  let ?seen = "\<lambda>x. \<not> creates k e \<and> (seen x \<or> marks x e pg)"
  have "Good s' \<or> happenedSince (creates k) (marks (tag s')) evs mid (?seen (tag s'))"
  proof (rule Cons.IH [where seen = ?seen])
    show "page_run evs mid = Some pg'" by (rule rest)
    show "map_of (sessions (app pg')) k = Some s'" by (rule Cons.prems(3))
    fix s
    assume stored: "map_of (sessions (app mid)) k = Some s"
    from store_step_lookup [OF page_fire_store [OF mid] stored]
    consider "creates k e" "freshSession s"
      | "\<not> creates k e" "map_of (sessions (app pg)) k = Some s"
      | s0 where "\<not> creates k e" "map_of (sessions (app pg)) k = Some s0" "k \<noteq> []"
          "target e (app pg) = Some k" "session_step e s0 s"
      by blast
    then show "Good s \<or> (\<not> creates k e \<and> (seen (tag s) \<or> marks (tag s) e pg))"
    proof cases
      case 1
      then show ?thesis using fresh by simp
    next
      case 2
      then show ?thesis using Cons.prems(2) by blast
    next
      case 3
      have before: "Good s0 \<or> seen (tag s0)" using 3(2) by (rule Cons.prems(2))
      from step [OF 3(2-5)] before 3(1) show ?thesis by auto
    qed
  qed
  then show ?case using mid by simp
qed

lemma never_happened: "\<not> happenedSince created (\<lambda>e p. False) evs pg False"
  by (induction evs arbitrary: pg) (auto split: option.splits)

lemma page_run_everySession:
  assumes "page_run evs startPage = Some pg" and "map_of (sessions (app pg)) k = Some s"
    and fresh: "\<And>s. freshSession s \<Longrightarrow> Good s"
    and step: "\<And>e s s'. session_step e s s' \<Longrightarrow> Good s \<Longrightarrow> Good s'"
  shows "Good s"
proof -
  have "Good s \<or> happenedSince (creates k) ((\<lambda>x e p. False) ()) evs startPage
      ((\<lambda>x. False) ((\<lambda>s. ()) s))"
    using assms(1) _ assms(2) fresh
  proof (rule history_invariant [where tag = "\<lambda>s. ()" and marks = "\<lambda>x e p. False"
        and seen = "\<lambda>x. False" and Good = Good])
    show "\<And>s. map_of (sessions (app startPage)) k = Some s \<Longrightarrow> Good s \<or> False"
      by (simp add: startPage_def startApp_def)
    show "\<And>e p s s'. session_step e s s' \<Longrightarrow>
        Good s' \<or> False \<or> (() = () \<and> (Good s \<longrightarrow> Good s'))"
      using step by blast
  qed
  then show ?thesis using never_happened by simp
qed

lemma step_generated:
  assumes "session_step e s s'" and "target e st = Some k"
  shows "neverGenerated s' \<or> (target e st = Some k \<and> isGenerationSuccess e)
     \<or> (neverGenerated s \<longrightarrow> neverGenerated s')"
  using assms by (cases rule: session_step.cases) (auto simp: neverGenerated_def)

lemma step_graded:
  assumes "session_step e s s'" and "target e st = Some k"
  shows "correction s' = None \<or> (target e st = Some k \<and> isGradingSuccess e)
     \<or> (correction s = None \<longrightarrow> correction s' = None)"
  using assms by (cases rule: session_step.cases) auto

lemma step_acknowledged:
  assumes "session_step e s s'" and "target e (app p) = Some k" and "k \<noteq> []"
    and "map_of (sessions (app p)) k = Some s"
  shows "emptyWhileConfiguring s'
     \<or> acknowledges k (questions s', userAnswers s') e p
     \<or> ((questions s', userAnswers s') = (questions s, userAnswers s)
          \<and> (emptyWhileConfiguring s \<longrightarrow> emptyWhileConfiguring s'))"
  using assms
  by (cases rule: session_step.cases)
     (auto simp: emptyWhileConfiguring_def acknowledges_def target_def activeSession_def)

text \<open>
  Every run of \<^const>\<open>run\<close> is a run of \<^const>\<open>page_run\<close> with the same component state;
  \<^const>\<open>page_run\<close> goes on where a call settles after its session was deleted.
\<close>

lemma fire_page_fire:
  assumes "fire e (app pg) = Some st'"
  shows "\<exists>pg'. page_fire e pg = Some pg' \<and> app pg' = st'"
  using assms
  by (cases e)
     (auto simp: inApp_def deleteAt_def forgetLeftover_def awaiting_def handleDeleteSession_def
           split: option.splits if_splits file_input.splits)

lemma run_page_run:
  assumes "run evs (app pg) = Some st'"
  shows "\<exists>pg'. page_run evs pg = Some pg' \<and> app pg' = st'"
  using assms
proof (induction evs arbitrary: pg)
  case Nil
  then show ?case by simp
next
  case (Cons e evs)
  from Cons.prems obtain mid where mid: "fire e (app pg) = Some mid"
    and rest: "run evs mid = Some st'"
    by (auto split: option.splits)
  from fire_page_fire [OF mid] obtain pg1 where pg1: "page_fire e pg = Some pg1" "app pg1 = mid"
    by blast
  from rest pg1(2) have "run evs (app pg1) = Some st'" by simp
  from Cons.IH [OF this] show ?case using pg1(1) by simp
qed

text \<open>
  Claim C3, as amended. On every page reached from the empty store by any sequence of
  events (uploads, configuration, generation, answers, submission, acknowledgement of
  an error, resets, selection, deletion, and calls that settle after their session
  was deleted) the store is coherent, and for every session \<open>s\<close> stored under an
  identifier \<open>k\<close>: its correction is non-null only in state \<open>REVIEWING_QUIZ\<close>, so it is
  null in state \<open>CONFIGURING_QUIZ\<close>; in state \<open>CONFIGURING_QUIZ\<close> it has no question and
  no answer, unless since it was created an error of this session was acknowledged
  while it held exactly these questions and answers; its questions or answers are
  non-empty only if since its creation a generation for it has succeeded, and its
  correction is non-null only if a grading for it has succeeded. What a call leaves
  that settles after its session was deleted is never in state \<open>CONFIGURING_QUIZ\<close> and
  holds a correction only in state \<open>REVIEWING_QUIZ\<close>.
\<close>

theorem configuring_session_has_no_correction:
  assumes "page_run evs startPage = Some pg"
  shows "coherent pg
     \<and> ((k, s) \<in> set (sessions (app pg)) \<longrightarrow>
          (correction s \<noteq> None \<longrightarrow> state s = REVIEWING_QUIZ)
        \<and> (state s = CONFIGURING_QUIZ \<longrightarrow> correction s = None)
        \<and> (state s = CONFIGURING_QUIZ \<longrightarrow>
             (questions s = [] \<and> userAnswers s = [])
             \<or> happenedSince (creates k) (acknowledges k (questions s, userAnswers s))
                  evs startPage False)
        \<and> (questions s \<noteq> [] \<or> userAnswers s \<noteq> [] \<longrightarrow>
             happenedSince (creates k) (generatesFor k) evs startPage False)
        \<and> (correction s \<noteq> None \<longrightarrow>
             happenedSince (creates k) (gradesFor k) evs startPage False))
     \<and> ((j, l) \<in> set (leftovers pg) \<longrightarrow>
          leftoverState l \<noteq> CONFIGURING_QUIZ
        \<and> (leftoverCorrection l \<noteq> None \<longrightarrow> leftoverState l = REVIEWING_QUIZ))"
proof -
  have whole: "coherent pg" using assms coherent_startPage by (rule page_run_coherent)
  have none: "\<And>t. map_of (sessions (app startPage)) k = Some t \<Longrightarrow> False"
    by (simp add: startPage_def startApp_def)
  have session: "(correction s \<noteq> None \<longrightarrow> state s = REVIEWING_QUIZ)
        \<and> (state s = CONFIGURING_QUIZ \<longrightarrow> correction s = None)
        \<and> (state s = CONFIGURING_QUIZ \<longrightarrow>
             (questions s = [] \<and> userAnswers s = [])
             \<or> happenedSince (creates k) (acknowledges k (questions s, userAnswers s))
                  evs startPage False)
        \<and> (questions s \<noteq> [] \<or> userAnswers s \<noteq> [] \<longrightarrow>
             happenedSince (creates k) (generatesFor k) evs startPage False)
        \<and> (correction s \<noteq> None \<longrightarrow>
             happenedSince (creates k) (gradesFor k) evs startPage False)"
    if "(k, s) \<in> set (sessions (app pg))"
  proof -
    have stored: "map_of (sessions (app pg)) k = Some s"
      using whole that by (simp add: coherent_def)
    have c: "correctionOnlyInReview s"
      using assms stored fresh_invariants(1) step_correctionOnlyInReview
      by (rule page_run_everySession)
    have a: "emptyWhileConfiguring s
       \<or> happenedSince (creates k) (acknowledges k (questions s, userAnswers s)) evs startPage False"
      using assms _ stored fresh_invariants(3)
    proof (rule history_invariant [where tag = "\<lambda>s. (questions s, userAnswers s)"
          and marks = "acknowledges k" and seen = "\<lambda>x. False"])
      show "\<And>t. map_of (sessions (app startPage)) k = Some t \<Longrightarrow>
          emptyWhileConfiguring t \<or> False"
        using none by blast
      show "\<And>e p t t'. map_of (sessions (app p)) k = Some t \<Longrightarrow> k \<noteq> [] \<Longrightarrow>
          target e (app p) = Some k \<Longrightarrow> session_step e t t' \<Longrightarrow>
          emptyWhileConfiguring t'
          \<or> acknowledges k (questions t', userAnswers t') e p
          \<or> ((questions t', userAnswers t') = (questions t, userAnswers t)
               \<and> (emptyWhileConfiguring t \<longrightarrow> emptyWhileConfiguring t'))"
        using step_acknowledged by blast
    qed
    have g: "neverGenerated s
       \<or> happenedSince (creates k) (generatesFor k) evs startPage False"
      using assms _ stored fresh_invariants(4)
    proof (rule history_invariant [where tag = "\<lambda>s. ()"
          and marks = "\<lambda>x. generatesFor k" and seen = "\<lambda>x. False"])
      show "\<And>t. map_of (sessions (app startPage)) k = Some t \<Longrightarrow> neverGenerated t \<or> False"
        using none by blast
      show "\<And>e p t t'. map_of (sessions (app p)) k = Some t \<Longrightarrow> k \<noteq> [] \<Longrightarrow>
          target e (app p) = Some k \<Longrightarrow> session_step e t t' \<Longrightarrow>
          neverGenerated t' \<or> generatesFor k e p
          \<or> (() = () \<and> (neverGenerated t \<longrightarrow> neverGenerated t'))"
        using step_generated unfolding generatesFor_def by blast
    qed
    have r: "correction s = None
       \<or> happenedSince (creates k) (gradesFor k) evs startPage False"
      using assms _ stored fresh_invariants(5)
    proof (rule history_invariant [where tag = "\<lambda>s. ()"
          and marks = "\<lambda>x. gradesFor k" and seen = "\<lambda>x. False"])
      show "\<And>t. map_of (sessions (app startPage)) k = Some t \<Longrightarrow> correction t = None \<or> False"
        using none by blast
      show "\<And>e p t t'. map_of (sessions (app p)) k = Some t \<Longrightarrow> k \<noteq> [] \<Longrightarrow>
          target e (app p) = Some k \<Longrightarrow> session_step e t t' \<Longrightarrow>
          correction t' = None \<or> gradesFor k e p
          \<or> (() = () \<and> (correction t = None \<longrightarrow> correction t' = None))"
        using step_graded unfolding gradesFor_def by blast
    qed
    from c a g r show ?thesis
      by (auto simp: correctionOnlyInReview_def emptyWhileConfiguring_def neverGenerated_def)
  qed
  have left: "leftoverState l \<noteq> CONFIGURING_QUIZ
        \<and> (leftoverCorrection l \<noteq> None \<longrightarrow> leftoverState l = REVIEWING_QUIZ)"
    by (cases l) (simp_all add: leftoverState_def leftoverCorrection_def)
  from whole session left show ?thesis by blast
qed


text \<open>
  The claim as stated fails: a quiz is generated and answered, the grading fails, the
  error is acknowledged, and the session is in state \<open>CONFIGURING_QUIZ\<close> with its
  question and its answer.
\<close>

theorem acknowledged_error_keeps_questions:
  "run failedGradingTrace startApp
     = Some (demoApp ((demoSession CONFIGURING_QUIZ [demoQuestion] [(''q1'', [''A''])])
               \<lparr>lastAccessed := 1007\<rparr>))
   \<and> questions ((demoSession CONFIGURING_QUIZ [demoQuestion] [(''q1'', [''A''])])
               \<lparr>lastAccessed := 1007\<rparr>) \<noteq> []
   \<and> userAnswers ((demoSession CONFIGURING_QUIZ [demoQuestion] [(''q1'', [''A''])])
               \<lparr>lastAccessed := 1007\<rparr>) \<noteq> []"
  by code_simp

theorem configuring_session_has_no_correction_witness:
  "page_run failedGradingTrace startPage
     = Some (pageOf (demoApp ((demoSession CONFIGURING_QUIZ [demoQuestion] [(''q1'', [''A''])])
               \<lparr>lastAccessed := 1007\<rparr>)))
   \<and> happenedSince (creates ''session-1000'')
        (acknowledges ''session-1000'' ([demoQuestion], [(''q1'', [''A''])]))
        failedGradingTrace startPage False
   \<and> page_run improvedTrace startPage
     = Some (pageOf (demoApp ((demoSession CONFIGURING_QUIZ [] [])
          \<lparr>weakTopics := Some ''Vowels'', lastAccessed := 1007\<rparr>)))
   \<and> \<not> happenedSince (creates ''session-1000'')
          (acknowledges ''session-1000''
             (questions ((demoSession CONFIGURING_QUIZ [] [])
                \<lparr>weakTopics := Some ''Vowels'', lastAccessed := 1007\<rparr>),
              userAnswers ((demoSession CONFIGURING_QUIZ [] [])
                \<lparr>weakTopics := Some ''Vowels'', lastAccessed := 1007\<rparr>)))
          improvedTrace startPage False
   \<and> questions ((demoSession CONFIGURING_QUIZ [] [])
          \<lparr>weakTopics := Some ''Vowels'', lastAccessed := 1007\<rparr>) = []
   \<and> page_run reviewedTrace startPage
     = Some (pageOf (demoApp ((demoSession REVIEWING_QUIZ [demoQuestion] [(''q1'', [''A''])])
          \<lparr>correction := Some demoCorrection, weakTopics := Some ''Vowels'',
            lastAccessed := 1006\<rparr>)))
   \<and> happenedSince (creates ''session-1000'') (generatesFor ''session-1000'')
        reviewedTrace startPage False
   \<and> happenedSince (creates ''session-1000'') (gradesFor ''session-1000'')
        reviewedTrace startPage False
   \<and> run deletedWhileGeneratingTrace startApp = None
   \<and> page_run deletedWhileGeneratingTrace startPage = Some leftoverPage
   \<and> coherent leftoverPage
   \<and> leftoverState (LeftoverQuiz [demoQuestion] 1003) = TAKING_QUIZ"
proof -
  let ?f = "(demoSession CONFIGURING_QUIZ [demoQuestion] [(''q1'', [''A''])])
          \<lparr>lastAccessed := 1007\<rparr>"
  let ?c = "(demoSession CONFIGURING_QUIZ [] [])
          \<lparr>weakTopics := Some ''Vowels'', lastAccessed := 1007\<rparr>"
  let ?r = "(demoSession REVIEWING_QUIZ [demoQuestion] [(''q1'', [''A''])])
          \<lparr>correction := Some demoCorrection, weakTopics := Some ''Vowels'',
            lastAccessed := 1006\<rparr>"
  let ?l = "LeftoverQuiz [demoQuestion] 1003"
  have failed: "page_run failedGradingTrace startPage = Some (pageOf (demoApp ?f))"
    by code_simp
  have improved: "page_run improvedTrace startPage = Some (pageOf (demoApp ?c))"
    by code_simp
  have reviewed: "page_run reviewedTrace startPage = Some (pageOf (demoApp ?r))"
    by code_simp
  have deleted: "page_run deletedWhileGeneratingTrace startPage = Some leftoverPage"
    by code_simp
  have lost: "run deletedWhileGeneratingTrace startApp = None"
    by code_simp
  have quiet: "\<not> happenedSince (creates ''session-1000'')
        (acknowledges ''session-1000'' (questions ?c, userAnswers ?c)) improvedTrace startPage False"
    by code_simp
  have stored: "(''session-1000'', ?f) \<in> set (sessions (app (pageOf (demoApp ?f))))"
    "(''session-1000'', ?c) \<in> set (sessions (app (pageOf (demoApp ?c))))"
    "(''session-1000'', ?r) \<in> set (sessions (app (pageOf (demoApp ?r))))"
    by (simp_all add: pageOf_def demoApp_def demoSession_def)
  have left: "(''session-1000'', ?l) \<in> set (leftovers leftoverPage)"
    by (simp add: leftoverPage_def)
  have facts: "state ?f = CONFIGURING_QUIZ" "questions ?f = [demoQuestion]"
    "userAnswers ?f = [(''q1'', [''A''])]" "state ?c = CONFIGURING_QUIZ"
    "correction ?r \<noteq> None" "questions ?r \<noteq> []"
    by (simp_all add: demoSession_def)
  note at_f = configuring_session_has_no_correction [OF failed,
      where k = "''session-1000''" and s = ?f and j = "''session-1000''" and l = ?l]
  note at_c = configuring_session_has_no_correction [OF improved,
      where k = "''session-1000''" and s = ?c and j = "''session-1000''" and l = ?l]
  note at_r = configuring_session_has_no_correction [OF reviewed,
      where k = "''session-1000''" and s = ?r and j = "''session-1000''" and l = ?l]
  note at_l = configuring_session_has_no_correction [OF deleted,
      where k = "''session-1000''" and s = ?f and j = "''session-1000''" and l = ?l]
  have "happenedSince (creates ''session-1000'')
        (acknowledges ''session-1000'' ([demoQuestion], [(''q1'', [''A''])]))
        failedGradingTrace startPage False"
    using at_f stored(1) facts(1-3) by auto
  moreover have "questions ?c = [] \<and> userAnswers ?c = [] \<and> correction ?c = None"
    using at_c stored(2) facts(4) quiet by blast
  moreover have "state ?r = REVIEWING_QUIZ
      \<and> happenedSince (creates ''session-1000'') (generatesFor ''session-1000'')
          reviewedTrace startPage False
      \<and> happenedSince (creates ''session-1000'') (gradesFor ''session-1000'')
          reviewedTrace startPage False"
    using at_r stored(3) facts(5,6) by blast
  moreover have "coherent leftoverPage \<and> leftoverState ?l \<noteq> CONFIGURING_QUIZ"
    using at_l left by blast
  moreover have "leftoverState ?l = TAKING_QUIZ" by (simp add: leftoverState_def)
  ultimately show ?thesis using failed improved reviewed deleted lost quiet by blast
qed

text \<open>
  Claim C9. When \<^verbatim>\<open>handleGenerateQuiz\<close> sets the state of the active session to
  \<open>GENERATING_QUIZ\<close>, and when \<^verbatim>\<open>handleSubmitQuiz\<close> (the guard holding) sets it to
  \<open>SUBMITTING_QUIZ\<close>, the same update sets the error to null. And in every state
  reached from the empty store by any sequence of events of the page, a session in
  state \<open>GENERATING_QUIZ\<close> or \<open>SUBMITTING_QUIZ\<close> has the error null.
\<close>

theorem waiting_session_has_no_error:
  "(activeSession st = Some a \<longrightarrow>
      (\<exists>st' a'. handleGenerateQuiz_begin now st = Some st' \<and> activeSession st' = Some a'
         \<and> state a' = GENERATING_QUIZ \<and> error a' = ErrNull))
   \<and> (isQuizAnswered st \<longrightarrow>
      (\<exists>st' a'. handleSubmitQuiz_begin now st = Some st' \<and> activeSession st' = Some a'
         \<and> state a' = SUBMITTING_QUIZ \<and> error a' = ErrNull))
   \<and> (run evs startApp = Some final \<longrightarrow> s \<in> set (map snd (sessions final)) \<longrightarrow>
        state s = GENERATING_QUIZ \<or> state s = SUBMITTING_QUIZ \<longrightarrow> error s = ErrNull)"
proof -
  have generate: "\<exists>st' a'. handleGenerateQuiz_begin now st = Some st' \<and> activeSession st' = Some a'
         \<and> state a' = GENERATING_QUIZ \<and> error a' = ErrNull" if "activeSession st = Some a"
    using updateActiveSession_active [OF that,
        of "\<lambda>s. s\<lparr>state := GENERATING_QUIZ, error := ErrNull\<rparr>" now] that
    by (auto simp: handleGenerateQuiz_begin_def)
  have submit: "\<exists>st' a'. handleSubmitQuiz_begin now st = Some st' \<and> activeSession st' = Some a'
         \<and> state a' = SUBMITTING_QUIZ \<and> error a' = ErrNull" if answered: "isQuizAnswered st"
  proof -
    obtain b where b: "activeSession st = Some b"
      using answered by (cases "activeSession st") (simp_all add: isQuizAnswered_def)
    show ?thesis
      using updateActiveSession_active [OF b,
          of "\<lambda>s. s\<lparr>state := SUBMITTING_QUIZ, error := ErrNull\<rparr>" now] answered b
      by (auto simp: handleSubmitQuiz_begin_def)
  qed
  have reach: "error s = ErrNull"
    if "run evs startApp = Some final" and "s \<in> set (map snd (sessions final))"
      and "state s = GENERATING_QUIZ \<or> state s = SUBMITTING_QUIZ"
  proof -
    have "everySession noStaleError final"
      using that(1) everySession_startApp list_all_True fresh_invariants(2) step_noStaleError
      by (rule run_everySession)
    then have "noStaleError s" using that(2) by (auto simp: everySession_def)
    then show ?thesis using that(3) by (simp add: noStaleError_def)
  qed
  from generate submit reach show ?thesis by blast
qed

theorem waiting_session_has_no_error_witness:
  "run retryTrace startApp = Some (demoApp ((demoSession GENERATING_QUIZ [] [])\<lparr>lastAccessed := 1005\<rparr>))
   \<and> error ((demoSession GENERATING_QUIZ [] [])\<lparr>lastAccessed := 1005\<rparr>) = ErrNull
   \<and> activeSession (demoApp ((demoSession ERROR [] [])\<lparr>error := ErrMsg msg_generate_failed\<rparr>))
       = Some ((demoSession ERROR [] [])\<lparr>error := ErrMsg msg_generate_failed\<rparr>)
   \<and> handleGenerateQuiz_begin 1005
        (demoApp ((demoSession ERROR [] [])\<lparr>error := ErrMsg msg_generate_failed\<rparr>))
       = Some (demoApp ((demoSession GENERATING_QUIZ [] [])\<lparr>lastAccessed := 1005\<rparr>))
   \<and> isQuizAnswered (demoQuizApp [''A''])
   \<and> handleSubmitQuiz_begin 1005 (demoQuizApp [''A''])
       = Some (demoApp ((demoSession SUBMITTING_QUIZ [demoQuestion] [(''q1'', [''A''])])
            \<lparr>lastAccessed := 1005\<rparr>))"
proof -
  let ?g = "(demoSession GENERATING_QUIZ [] [])\<lparr>lastAccessed := 1005\<rparr>"
  let ?e = "(demoSession ERROR [] [])\<lparr>error := ErrMsg msg_generate_failed\<rparr>"
  have reached: "run retryTrace startApp = Some (demoApp ?g)"
    by code_simp
  have stored: "?g \<in> set (map snd (sessions (demoApp ?g)))"
    by (simp add: demoApp_def)
  have waiting: "state ?g = GENERATING_QUIZ \<or> state ?g = SUBMITTING_QUIZ"
    by (simp add: demoSession_def)
  have active: "activeSession (demoApp ?e) = Some ?e"
    by code_simp
  have answered: "isQuizAnswered (demoQuizApp [''A''])"
    by code_simp
  have g: "handleGenerateQuiz_begin 1005 (demoApp ?e) = Some (demoApp ?g)"
    by code_simp
  have s: "handleSubmitQuiz_begin 1005 (demoQuizApp [''A''])
       = Some (demoApp ((demoSession SUBMITTING_QUIZ [demoQuestion] [(''q1'', [''A''])])
            \<lparr>lastAccessed := 1005\<rparr>))"
    by code_simp
  from waiting_session_has_no_error [of "demoApp ?e" ?e 1005 retryTrace "demoApp ?g" ?g]
    reached stored waiting
  have "error ?g = ErrNull" by blast
  with reached active answered g s show ?thesis by simp
qed

section \<open>Saving and loading\<close>

lemma sync_run_snoc: "sync_run (evs @ [e]) w = sync_step e (sync_run evs w)"
  by (induction evs arbitrary: w) simp_all

lemma loadEffect_loaded: "isLoaded (loadEffect item st)"
  by (cases item) (simp_all add: loadEffect_def)

lemma sync_invariant:
  "(isLoaded (current (sync_run evs (mounted item))) \<longrightarrow> list_ex isLoadEffect evs)
   \<and> (isLoaded (rendered (sync_run evs (mounted item)))
        \<longrightarrow> isLoaded (current (sync_run evs (mounted item))))
   \<and> (\<not> isLoaded (rendered (sync_run evs (mounted item)))
        \<longrightarrow> disk (sync_run evs (mounted item)) = item)"
proof (induction evs rule: rev_induct)
  case Nil
  show ?case by (simp add: mounted_def initialApp_def)
next
  case (snoc e evs)
  then show ?case
    by (cases e) (auto simp: sync_run_snoc loadEffect_loaded saveEffect_def)
qed

text \<open>
  Claim C8. Take any schedule of effect runs, renders and state updates after the mount
  of the component, on any stored item. A render sees \<open>isLoaded\<close> true only after the
  load effect has run (it sets the flag after parsing the item, skipping it or failing
  on it). While the latest render saw \<open>isLoaded\<close> false, the storage holds the item
  found at the mount, and a run of the save effect leaves it so. Hence the stored item
  differs from the one found at the mount only after the load effect has run.
\<close>

theorem no_save_before_load:
  "(isLoaded (rendered (sync_run evs (mounted item))) \<longrightarrow> list_ex isLoadEffect evs)
   \<and> (\<not> isLoaded (rendered (sync_run evs (mounted item))) \<longrightarrow>
        disk (sync_run evs (mounted item)) = item
        \<and> disk (sync_step (SaveEffectRuns writable) (sync_run evs (mounted item))) = item)
   \<and> (disk (sync_run evs (mounted item)) \<noteq> item \<longrightarrow> list_ex isLoadEffect evs)"
  using sync_invariant [of evs item]
  by (auto simp: saveEffect_def)

theorem no_save_before_load_witness:
  "sync_run [LoadEffectRuns, SaveEffectRuns True] (mounted (JsonText demoStored))
     = \<lparr>current = \<lparr>sessions = JSON_parse demoStored, activeSessionId = None, isLoaded = True\<rparr>,
        rendered = initialApp (VObj []), disk = JsonText demoStored\<rparr>
   \<and> disk (sync_run [LoadEffectRuns, SaveEffectRuns True, Rendered, SaveEffectRuns True]
        (mounted (JsonText demoStored))) = JsonText demoStored
   \<and> disk (sync_run [LoadEffectRuns, SaveEffectRuns True, Rendered, SaveEffectRuns True]
        (mounted OtherText)) = JsonText (JObject [])
   \<and> disk (sync_run [SaveEffectRuns True] (mounted (JsonText demoStored))) = JsonText demoStored"
proof -
  have a: "sync_run [LoadEffectRuns, SaveEffectRuns True] (mounted (JsonText demoStored))
     = \<lparr>current = \<lparr>sessions = JSON_parse demoStored, activeSessionId = None, isLoaded = True\<rparr>,
        rendered = initialApp (VObj []), disk = JsonText demoStored\<rparr>"
    by (simp add: mounted_def initialApp_def loadEffect_def saveEffect_def)
  have b: "disk (sync_run [LoadEffectRuns, SaveEffectRuns True, Rendered, SaveEffectRuns True]
        (mounted (JsonText demoStored))) = JsonText demoStored"
    by code_simp
  have c: "disk (sync_run [LoadEffectRuns, SaveEffectRuns True, Rendered, SaveEffectRuns True]
        (mounted OtherText)) = JsonText (JObject [])"
    by code_simp
  have d: "\<not> isLoaded (rendered (sync_run [] (mounted (JsonText demoStored))))"
    by (simp add: mounted_def initialApp_def)
  from no_save_before_load [of "[]" "JsonText demoStored" True] d
  have "disk (sync_step (SaveEffectRuns True) (sync_run [] (mounted (JsonText demoStored))))
      = JsonText demoStored"
    by blast
  then have "disk (sync_run [SaveEffectRuns True] (mounted (JsonText demoStored)))
      = JsonText demoStored"
    by simp
  with a b c show ?thesis by simp
qed

subsection \<open>The round trip of a store\<close>

lemma stringify_None: "JSON_stringify v = None \<longleftrightarrow> v = VUndefined"
proof (cases v)
  case (VNum n)
  then show ?thesis by (cases n) simp_all
qed simp_all

lemma update_fresh: "k \<notin> fst ` set al \<Longrightarrow> AList.update k v al = al @ [(k, v)]"
  by (induct al) auto

lemma foldl_update_distinct:
  "distinct (map fst (acc @ kvs)) \<Longrightarrow>
   foldl (\<lambda>acc kv. AList.update (fst kv) (snd kv) acc) acc kvs = acc @ kvs"
proof (induction kvs arbitrary: acc)
  case Nil
  then show ?case by simp
next
  case (Cons kv kvs)
  have fresh: "fst kv \<notin> fst ` set acc"
    using Cons.prems by auto
  have "distinct (map fst ((acc @ [kv]) @ kvs))"
    using Cons.prems by simp
  then have "foldl (\<lambda>acc kv. AList.update (fst kv) (snd kv) acc) (acc @ [kv]) kvs
      = (acc @ [kv]) @ kvs"
    by (rule Cons.IH)
  moreover have "AList.update (fst kv) (snd kv) acc = acc @ [kv]"
    using update_fresh [OF fresh, of "snd kv"] by simp
  ultimately show ?case by simp
qed

lemma lastWins_distinct: "distinct (map fst kvs) \<Longrightarrow> lastWins kvs = kvs"
  using foldl_update_distinct [of "[]" kvs] by (simp add: lastWins_def)


lemma array_elements:
  assumes "\<And>v. v \<in> set vs \<Longrightarrow> v \<noteq> VUndefined \<Longrightarrow>
      map_option JSON_parse (JSON_stringify v) = Some (r v)"
  shows "map JSON_parse (map (\<lambda>v. case JSON_stringify v of None \<Rightarrow> JNull | Some j \<Rightarrow> j) vs)
     = map (\<lambda>v. if v = VUndefined then VNull else r v) vs"
  using assms
proof (induction vs)
  case Nil
  then show ?case by simp
next
  case (Cons v vs)
  have rest: "map JSON_parse (map (\<lambda>v. case JSON_stringify v of None \<Rightarrow> JNull | Some j \<Rightarrow> j) vs)
     = map (\<lambda>v. if v = VUndefined then VNull else r v) vs"
    using Cons.prems by (intro Cons.IH) simp_all
  have first: "JSON_parse (case JSON_stringify v of None \<Rightarrow> JNull | Some j \<Rightarrow> j)
     = (if v = VUndefined then VNull else r v)"
  proof (cases "v = VUndefined")
    case True
    then show ?thesis by simp
  next
    case False
    then have "map_option JSON_parse (JSON_stringify v) = Some (r v)"
      using Cons.prems by simp
    then show ?thesis using False by (auto split: option.splits)
  qed
  from first rest show ?case by simp
qed

lemma object_properties:
  assumes "\<And>kv. kv \<in> set kvs \<Longrightarrow> snd kv \<noteq> VUndefined \<Longrightarrow>
      map_option JSON_parse (JSON_stringify (snd kv)) = Some (r (snd kv))"
  shows "map (\<lambda>(k, j). (k, JSON_parse j))
       (concat (map (\<lambda>(k, v). case JSON_stringify v of None \<Rightarrow> [] | Some j \<Rightarrow> [(k, j)]) kvs))
     = map (\<lambda>kv. (fst kv, r (snd kv))) (filter (\<lambda>kv. snd kv \<noteq> VUndefined) kvs)"
  using assms
proof (induction kvs)
  case Nil
  then show ?case by simp
next
  case (Cons kv kvs)
  obtain k v where kv: "kv = (k, v)" by (cases kv)
  have rest: "map (\<lambda>(k, j). (k, JSON_parse j))
       (concat (map (\<lambda>(k, v). case JSON_stringify v of None \<Rightarrow> [] | Some j \<Rightarrow> [(k, j)]) kvs))
     = map (\<lambda>kv. (fst kv, r (snd kv))) (filter (\<lambda>kv. snd kv \<noteq> VUndefined) kvs)"
    using Cons.prems by (intro Cons.IH) simp_all
  show ?case
  proof (cases "v = VUndefined")
    case True
    then show ?thesis using rest kv by simp
  next
    case False
    then have "map_option JSON_parse (JSON_stringify v) = Some (r v)"
      using Cons.prems [of kv] kv by simp
    then obtain j where "JSON_stringify v = Some j" and "JSON_parse j = r v"
      by auto
    then show ?thesis using rest kv False by simp
  qed
qed

lemma stringify_parse:
  "wellFormed v \<Longrightarrow> v \<noteq> VUndefined \<Longrightarrow>
   map_option JSON_parse (JSON_stringify v) = Some (reloaded v)"
proof (induction v)
  case VUndefined
  then show ?case by simp
next
  case VNull
  show ?case by simp
next
  case (VBool b)
  show ?case by simp
next
  case (VNum n)
  show ?case by (cases n) simp_all
next
  case (VStr s)
  show ?case by simp
next
  case (VArr vs)
  have "map JSON_parse (map (\<lambda>v. case JSON_stringify v of None \<Rightarrow> JNull | Some j \<Rightarrow> j) vs)
     = map (\<lambda>v. if v = VUndefined then VNull else reloaded v) vs"
    using VArr by (intro array_elements) simp_all
  then show ?case by simp
next
  case (VObj kvs)
  have keys: "distinct (map fst kvs)"
    using VObj.prems by simp
  have "map (\<lambda>(k, j). (k, JSON_parse j))
       (concat (map (\<lambda>(k, v). case JSON_stringify v of None \<Rightarrow> [] | Some j \<Rightarrow> [(k, j)]) kvs))
     = map (\<lambda>kv. (fst kv, reloaded (snd kv))) (filter (\<lambda>kv. snd kv \<noteq> VUndefined) kvs)"
  proof (rule object_properties)
    fix kv
    assume "kv \<in> set kvs" and "snd kv \<noteq> VUndefined"
    moreover have "snd kv \<in> Basic_BNFs.snds kv"
      by (cases kv) simp
    moreover have "wellFormed (snd kv)"
      using VObj.prems(1) \<open>kv \<in> set kvs\<close> by simp
    ultimately show "map_option JSON_parse (JSON_stringify (snd kv)) = Some (reloaded (snd kv))"
      using VObj.IH by blast
  qed
  moreover have "distinct (map fst (map (\<lambda>kv. (fst kv, reloaded (snd kv)))
      (filter (\<lambda>kv. snd kv \<noteq> VUndefined) kvs)))"
    using keys by (simp add: comp_def distinct_map_filter)
  ultimately show ?case by (simp add: lastWins_distinct)
qed


lemma lossless_reloaded: "lossless v \<Longrightarrow> reloaded v = v"
proof (induction v)
  case (VNum n)
  then show ?case by (cases n) simp_all
next
  case (VArr vs)
  then have "map (\<lambda>v. if v = VUndefined then VNull else reloaded v) vs = map (\<lambda>v. v) vs"
    by (intro map_cong) auto
  then show ?case by simp
next
  case (VObj kvs)
  have keep: "filter (\<lambda>kv. snd kv \<noteq> VUndefined) kvs = kvs"
    using VObj.prems by (auto simp: filter_id_conv)
  have "map (\<lambda>kv. (fst kv, reloaded (snd kv))) kvs = map (\<lambda>kv. kv) kvs"
  proof (rule map_cong)
    fix kv
    assume mem: "kv \<in> set kvs"
    then have "lossless (snd kv)" using VObj.prems by simp
    moreover have "snd kv \<in> Basic_BNFs.snds kv" by (cases kv) simp
    ultimately have "reloaded (snd kv) = snd kv" using VObj.IH mem by blast
    then show "(fst kv, reloaded (snd kv)) = kv" by (cases kv) simp
  qed simp
  then show ?case using keep by simp
qed simp_all

lemma getProp_reloaded:
  assumes "distinct (map fst kvs)"
    and "\<forall>kv \<in> set kvs. snd kv = VUndefined \<or> reloaded (snd kv) = snd kv"
  shows "getProp (reloaded (VObj kvs)) k = getProp (VObj kvs) k"
proof -
  have "(case map_of (map (\<lambda>kv. (fst kv, reloaded (snd kv)))
                 (filter (\<lambda>kv. snd kv \<noteq> VUndefined) kvs)) k of
           None \<Rightarrow> VUndefined | Some x \<Rightarrow> x)
      = (case map_of kvs k of None \<Rightarrow> VUndefined | Some x \<Rightarrow> x)"
    using assms
  proof (induction kvs)
    case Nil
    then show ?case by simp
  next
    case (Cons kv kvs)
    obtain k' v where kv: "kv = (k', v)" by (cases kv)
    have rest: "(case map_of (map (\<lambda>kv. (fst kv, reloaded (snd kv)))
                 (filter (\<lambda>kv. snd kv \<noteq> VUndefined) kvs)) k of
           None \<Rightarrow> VUndefined | Some x \<Rightarrow> x)
      = (case map_of kvs k of None \<Rightarrow> VUndefined | Some x \<Rightarrow> x)"
      using Cons.prems by (intro Cons.IH) simp_all
    have absent: "map_of kvs k' = None"
      using Cons.prems(1) kv by (simp add: map_of_eq_None_iff)
    have v: "v = VUndefined \<or> reloaded v = v"
      using Cons.prems(2) kv by simp
    show ?case
    proof (cases "k = k'")
      case True
      then show ?thesis using rest absent v kv by auto
    next
      case False
      then show ?thesis using rest kv by simp
    qed
  qed
  then show ?thesis by (simp add: getProp_def)
qed

lemma lossless_parts:
  "lossless (VArr (map toJS_Question qs))"
  "lossless (toJS_UserAnswers ua)"
  "lossless (toJS_CorrectionResponse c)"
  by (simp_all add: toJS_Question_def toJS_Option_def toJS_UserAnswers_def
        toJS_CorrectionResponse_def toJS_QuizResult_def)

lemma wellFormed_parts:
  "wellFormed (VArr (map toJS_Question qs))"
  "distinct (map fst ua) \<Longrightarrow> wellFormed (toJS_UserAnswers ua)"
  "wellFormed (toJS_CorrectionResponse c)"
  by (simp_all add: toJS_Question_def toJS_Option_def toJS_UserAnswers_def
        toJS_CorrectionResponse_def toJS_QuizResult_def comp_def)

lemma wellFormed_question: "wellFormed (toJS_Question q)"
  by (simp add: toJS_Question_def toJS_Option_def)

lemma wellFormed_session:
  "distinct (map fst (userAnswers s)) \<Longrightarrow> wellFormed (toJS_DocumentSession s)"
  by (simp add: toJS_DocumentSession_def wellFormed_question wellFormed_parts(2,3)
        split: option.split error_field.split)

lemma session_reloaded:
  assumes "numQuestions s \<noteq> NaN"
  shows "getProp (reloaded (toJS_DocumentSession s)) k = getProp (toJS_DocumentSession s) k"
  unfolding toJS_DocumentSession_def
proof (rule getProp_reloaded)
  show "distinct (map fst
     [(''id'', VStr (s_id s)), (''fileName'', VStr (fileName s)),
           (''content'', VStr (content s)), (''quizType'', VStr (quizTypeValue (quizType s))),
           (''numQuestions'', VNum (numQuestions s)),
           (''questions'', VArr (map toJS_Question (questions s))),
           (''userAnswers'', toJS_UserAnswers (userAnswers s)),
           (''correction'', (case correction s of
                               None \<Rightarrow> VNull
                             | Some c \<Rightarrow> toJS_CorrectionResponse c)),
           (''weakTopics'', (case weakTopics s of None \<Rightarrow> VUndefined | Some t \<Rightarrow> VStr t)),
           (''lastAccessed'', VNum (Num (int (lastAccessed s)))),
           (''state'', VNum (Num (sessionStateValue (state s)))),
           (''error'', (case error s of
                          ErrUndefined \<Rightarrow> VUndefined
                        | ErrNull \<Rightarrow> VNull
                        | ErrMsg m \<Rightarrow> VStr m))])"
    by simp
next
  obtain n where "numQuestions s = Num n"
    using assms by (cases "numQuestions s") simp_all
  then show "\<forall>kv\<in>set [(''id'', VStr (s_id s)), (''fileName'', VStr (fileName s)),
           (''content'', VStr (content s)), (''quizType'', VStr (quizTypeValue (quizType s))),
           (''numQuestions'', VNum (numQuestions s)),
           (''questions'', VArr (map toJS_Question (questions s))),
           (''userAnswers'', toJS_UserAnswers (userAnswers s)),
           (''correction'', (case correction s of
                               None \<Rightarrow> VNull
                             | Some c \<Rightarrow> toJS_CorrectionResponse c)),
           (''weakTopics'', (case weakTopics s of None \<Rightarrow> VUndefined | Some t \<Rightarrow> VStr t)),
           (''lastAccessed'', VNum (Num (int (lastAccessed s)))),
           (''state'', VNum (Num (sessionStateValue (state s)))),
           (''error'', (case error s of
                          ErrUndefined \<Rightarrow> VUndefined
                        | ErrNull \<Rightarrow> VNull
                        | ErrMsg m \<Rightarrow> VStr m))].
      snd kv = VUndefined \<or> reloaded (snd kv) = snd kv"
    using lossless_reloaded [OF lossless_parts(1), of "questions s"]
      lossless_reloaded [OF lossless_parts(2), of "userAnswers s"]
      lossless_reloaded [OF lossless_parts(3)]
    by (simp split: option.split error_field.split)
qed


lemma map_of_map_values:
  "map_of (map (\<lambda>kv. (fst kv, f (snd kv))) al) k = map_option f (map_of al k)"
  by (induct al) auto

lemma session_defined: "toJS_DocumentSession s \<noteq> VUndefined"
  by (simp add: toJS_DocumentSession_def)

lemma wellFormed_store:
  assumes "distinct (map fst ss)"
    and "\<forall>s \<in> set (map snd ss). distinct (map fst (userAnswers s))"
  shows "wellFormed (toJS_Sessions ss)"
  using assms by (auto simp: toJS_Sessions_def comp_def wellFormed_session)

lemma getProp_store:
  assumes "map_of ss sid = Some s"
  shows "getProp (reloaded (toJS_Sessions ss)) sid = reloaded (toJS_DocumentSession s)"
proof -
  let ?objects = "map (\<lambda>kv. (fst kv, toJS_DocumentSession (snd kv))) ss"
  have keep: "filter (\<lambda>kv. snd kv \<noteq> VUndefined) ?objects = ?objects"
    by (simp add: filter_id_conv session_defined)
  have "map (\<lambda>kv. (fst kv, reloaded (snd kv))) ?objects
      = map (\<lambda>kv. (fst kv, reloaded (toJS_DocumentSession (snd kv)))) ss"
    by (simp add: comp_def)
  then have "reloaded (toJS_Sessions ss)
      = VObj (map (\<lambda>kv. (fst kv, reloaded (toJS_DocumentSession (snd kv)))) ss)"
    using keep by (simp add: toJS_Sessions_def)
  then show ?thesis
    using assms map_of_map_values [of "\<lambda>s. reloaded (toJS_DocumentSession s)" ss sid]
    by (simp add: getProp_def)
qed

lemma savedThenLoaded_reloaded:
  assumes "isLoaded st" and "wellFormed (toJS_Sessions (sessions st))"
  shows "savedThenLoaded st = reloaded (toJS_Sessions (sessions st))"
proof -
  have "toJS_Sessions (sessions st) \<noteq> VUndefined"
    by (simp add: toJS_Sessions_def)
  with assms(2) have "map_option JSON_parse (JSON_stringify (toJS_Sessions (sessions st)))
      = Some (reloaded (toJS_Sessions (sessions st)))"
    by (rule stringify_parse)
  then obtain j where "JSON_stringify (toJS_Sessions (sessions st)) = Some j"
    and "JSON_parse j = reloaded (toJS_Sessions (sessions st))"
    by auto
  then show ?thesis
    using assms(1)
    by (simp add: savedThenLoaded_def saveEffect_def loadEffect_def toJS_App_def)
qed

lemma saved_then_loaded_fields:
  assumes "isLoaded st" and "distinct (map fst (sessions st))"
    and "\<forall>s \<in> set (map snd (sessions st)). distinct (map fst (userAnswers s))"
    and "map_of (sessions st) sid = Some s"
  shows "numQuestions s \<noteq> NaN \<Longrightarrow>
      getProp (getProp (savedThenLoaded st) sid) k = getProp (toJS_DocumentSession s) k"
    and "numQuestions s = NaN \<Longrightarrow>
      getProp (getProp (savedThenLoaded st) sid) ''numQuestions'' = VNull"
proof -
  have "wellFormed (toJS_Sessions (sessions st))"
    using assms(2,3) by (rule wellFormed_store)
  with assms(1) have "savedThenLoaded st = reloaded (toJS_Sessions (sessions st))"
    by (rule savedThenLoaded_reloaded)
  then have at: "getProp (savedThenLoaded st) sid = reloaded (toJS_DocumentSession s)"
    using getProp_store [OF assms(4)] by simp
  show "getProp (getProp (savedThenLoaded st) sid) k = getProp (toJS_DocumentSession s) k"
    if "numQuestions s \<noteq> NaN"
    using at session_reloaded [OF that] by simp
  show "getProp (getProp (savedThenLoaded st) sid) ''numQuestions'' = VNull"
    if "numQuestions s = NaN"
    using at that by (simp add: toJS_DocumentSession_def getProp_def)
qed

text \<open>
  Claim C7 fails on the code. After an upload and an emptied count field the store holds
  a session whose \<open>numQuestions\<close> is \<^verbatim>\<open>NaN\<close>; \<^verbatim>\<open>JSON.stringify\<close> writes it as
  \<^verbatim>\<open>null\<close>, and the store that is loaded back has \<open>numQuestions\<close> \<^verbatim>\<open>null\<close>. The
  other fields, such as \<open>fileName\<close>, come back as they were; by
  \<open>saved_then_loaded_fields\<close> so does every field of a session whose \<open>numQuestions\<close> is
  a number.
\<close>

theorem saved_NaN_loads_as_null:
  "run [demoUpload, NumQuestionsTyped [] 1001] startApp = Some emptiedCountApp
   \<and> getProp (getProp (toJS_Sessions (sessions emptiedCountApp)) ''session-1000'') ''numQuestions''
       = VNum NaN
   \<and> getProp (getProp (savedThenLoaded emptiedCountApp) ''session-1000'') ''numQuestions'' = VNull
   \<and> getProp (getProp (savedThenLoaded emptiedCountApp) ''session-1000'') ''fileName''
       = VStr ''doc1.txt''"
  by code_simp


end
